theory Spec2Isabelle
  imports Complex_Main "HOL-Library.Word" "HOL-Library.Log_Nat" "HOL-Library.Product_Lexorder"
begin

section \<open>Data model\<close>

text \<open>
  The canvas \<^verbatim>\<open>ImageData\<close>: a flat, row-major RGBA byte array (a
  \<^verbatim>\<open>Uint8ClampedArray\<close>, four bytes per pixel) with its width and height.
  A canvas only hands out images with positive dimensions whose array has exactly
  \<open>4 * width * height\<close> bytes; \<open>wfImage\<close> records that shape. On such an image every
  read of the pipeline is in range. (On any other, a read out of range is
  \<^verbatim>\<open>undefined\<close> in JavaScript and unspecified here.)
\<close>

record ImageData =
  data :: "8 word list"
  width :: nat
  height :: nat

definition wfImage :: "ImageData \<Rightarrow> bool" where
  "wfImage img \<longleftrightarrow>
     0 < width img \<and> 0 < height img \<and> length (data img) = 4 * (width img * height img)"

text \<open>The three slider values; the sliders move in integer steps.\<close>

record ProcessingSettings =
  colorTolerance :: int
  edgeDetection :: int
  feathering :: int

type_synonym rgb = "int \<times> int \<times> int"

definition byteAt :: "8 word list \<Rightarrow> nat \<Rightarrow> int" where
  "byteAt d i = uint (d ! i)"

section \<open>colorDistance\<close>

definition colorDistance :: "int \<Rightarrow> int \<Rightarrow> int \<Rightarrow> int \<Rightarrow> int \<Rightarrow> int \<Rightarrow> real" where
  "colorDistance r1 g1 b1 r2 g2 b2 =
     sqrt (real_of_int ((r1 - r2) ^ 2 + (g1 - g2) ^ 2 + (b1 - b2) ^ 2))"

section \<open>getBackgroundColors\<close>

text \<open>The loop \<^verbatim>\<open>for (let v = 0; v < n; v += 5)\<close>, started at any \<open>v\<close>.\<close>

function stride5 :: "nat \<Rightarrow> nat \<Rightarrow> nat list" where
  "stride5 v n = (if v < n then v # stride5 (v + 5) n else [])"
  by pat_completeness auto
termination
  by (relation "measure (\<lambda>(v, n). n - v)") auto

declare stride5.simps [simp del]

definition samplePixels :: "nat \<Rightarrow> nat \<Rightarrow> (nat \<times> nat) list" where
  "samplePixels w h =
     concat (map (\<lambda>x. [(x, 0), (x, h - 1)]) (stride5 0 w)) @
     concat (map (\<lambda>y. [(0, y), (w - 1, y)]) (stride5 0 h))"

definition pixelRGB :: "ImageData \<Rightarrow> nat \<times> nat \<Rightarrow> rgb" where
  "pixelRGB img p =
     (let index = (snd p * width img + fst p) * 4
      in (byteAt (data img) index, byteAt (data img) (index + 1), byteAt (data img) (index + 2)))"

text \<open>
  The inner \<^verbatim>\<open>for (let color of colors)\<close> with its \<^verbatim>\<open>break\<close>: the first
  sample closer than 30 gets its count incremented; \<open>None\<close> is \<^verbatim>\<open>found == false\<close>.
\<close>

fun findSimilar :: "rgb \<Rightarrow> (rgb \<times> int) list \<Rightarrow> (rgb \<times> int) list option" where
  "findSimilar p [] = None"
| "findSimilar p ((c, n) # colors) =
     (if colorDistance (fst p) (fst (snd p)) (snd (snd p)) (fst c) (fst (snd c)) (snd (snd c)) < 30
      then Some ((c, n + 1) # colors)
      else map_option (\<lambda>cs. (c, n) # cs) (findSimilar p colors))"

definition tally :: "(rgb \<times> int) list \<Rightarrow> rgb \<Rightarrow> (rgb \<times> int) list" where
  "tally colors p =
     (case findSimilar p colors of Some colors' \<Rightarrow> colors' | None \<Rightarrow> colors @ [(p, 1)])"

definition sampledColors :: "ImageData \<Rightarrow> rgb list" where
  "sampledColors img = map (pixelRGB img) (samplePixels (width img) (height img))"

definition colorCounts :: "ImageData \<Rightarrow> (rgb \<times> int) list" where
  "colorCounts img = foldl tally [] (sampledColors img)"

text \<open>
  \<^verbatim>\<open>colors.sort((a, b) => b.count - a.count).slice(0, 3).map(...)\<close>: the sort of
  \<^verbatim>\<open>Array.prototype.sort\<close> is stable, as is \<open>sort_key\<close>.
\<close>

definition getBackgroundColors :: "ImageData \<Rightarrow> rgb list" where
  "getBackgroundColors img = map fst (take 3 (sort_key (\<lambda>c. - snd c) (colorCounts img)))"

section \<open>detectEdges\<close>

definition red :: "ImageData \<Rightarrow> nat \<Rightarrow> nat \<Rightarrow> int" where
  "red img x y = byteAt (data img) ((y * width img + x) * 4)"

definition sobelGx :: "ImageData \<Rightarrow> nat \<Rightarrow> nat \<Rightarrow> int" where
  "sobelGx img x y =
     -1 * red img (x - 1) (y - 1) + 1 * red img (x + 1) (y - 1) +
     -2 * red img (x - 1) y + 2 * red img (x + 1) y +
     -1 * red img (x - 1) (y + 1) + 1 * red img (x + 1) (y + 1)"

definition sobelGy :: "ImageData \<Rightarrow> nat \<Rightarrow> nat \<Rightarrow> int" where
  "sobelGy img x y =
     -1 * red img (x - 1) (y - 1) + -2 * red img x (y - 1) + -1 * red img (x + 1) (y - 1) +
     1 * red img (x - 1) (y + 1) + 2 * red img x (y + 1) + 1 * red img (x + 1) (y + 1)"

definition magnitude :: "ImageData \<Rightarrow> nat \<Rightarrow> nat \<Rightarrow> real" where
  "magnitude img x y =
     sqrt (real_of_int (sobelGx img x y * sobelGx img x y + sobelGy img x y * sobelGy img x y))"

definition detectEdges :: "ImageData \<Rightarrow> int \<Rightarrow> bool list" where
  "detectEdges img threshold =
     foldl (\<lambda>edges y.
        foldl (\<lambda>edges x. edges[y * width img + x := magnitude img x y > real_of_int threshold])
          edges [1 ..< width img - 1])
       (replicate (width img * height img) False) [1 ..< height img - 1]"

section \<open>removeBackground\<close>

subsection \<open>First pass: colour similarity\<close>

text \<open>The \<^verbatim>\<open>for (let bgColor of backgroundColors)\<close> loop with its \<^verbatim>\<open>break\<close>.\<close>

definition isBackground :: "rgb list \<Rightarrow> int \<Rightarrow> rgb \<Rightarrow> bool" where
  "isBackground backgroundColors tol p =
     list_ex (\<lambda>bgColor.
        colorDistance (fst p) (fst (snd p)) (snd (snd p))
          (fst bgColor) (fst (snd bgColor)) (snd (snd bgColor)) < real_of_int tol)
       backgroundColors"

definition classifyPixel :: "ImageData \<Rightarrow> bool list \<Rightarrow> rgb list \<Rightarrow> int \<Rightarrow> nat \<Rightarrow> nat \<Rightarrow> int list \<Rightarrow> int list" where
  "classifyPixel img edges backgroundColors tol y x alphaChannel =
     (let idx = y * width img + x in
      if isBackground backgroundColors tol (pixelRGB img (x, y)) \<and> \<not> edges ! idx
        then alphaChannel[idx := 0]
      else if isBackground backgroundColors tol (pixelRGB img (x, y))
        then alphaChannel[idx := \<lfloor>255 * (0.3 :: real)\<rfloor>]
      else alphaChannel)"

definition classify :: "ImageData \<Rightarrow> bool list \<Rightarrow> rgb list \<Rightarrow> int \<Rightarrow> int list" where
  "classify img edges backgroundColors tol =
     foldl (\<lambda>alphaChannel y.
        foldl (\<lambda>alphaChannel x. classifyPixel img edges backgroundColors tol y x alphaChannel)
          alphaChannel [0 ..< width img])
       (replicate (width img * height img) 255) [0 ..< height img]"

subsection \<open>Second pass: feathering\<close>

text \<open>
  Reads of the alpha array. Out of range a JavaScript array yields \<^verbatim>\<open>undefined\<close>,
  for which both \<^verbatim>\<open>=== 0\<close> and \<^verbatim>\<open>> 0\<close> are false.
\<close>

definition isZeroAt :: "int list \<Rightarrow> int \<Rightarrow> bool" where
  "isZeroAt a i \<longleftrightarrow> 0 \<le> i \<and> nat i < length a \<and> a ! nat i = 0"

definition isPositiveAt :: "int list \<Rightarrow> int \<Rightarrow> bool" where
  "isPositiveAt a i \<longleftrightarrow> 0 \<le> i \<and> nat i < length a \<and> a ! nat i > 0"

definition offsetDistance :: "int \<Rightarrow> int \<Rightarrow> real" where
  "offsetDistance dx dy = sqrt (real_of_int (dx * dx + dy * dy))"

text \<open>
  JavaScript numbers are IEEE 754 double-precision values: every arithmetic operation,
  and \<^verbatim>\<open>Math.sqrt\<close>, returns the exact real result rounded to the nearest
  representable number, a tie going to the neighbour with the even significand. \<open>dbl\<close>
  is that rounding. For \<open>x > 0\<close> the exponent \<open>e = binExp x\<close> is the integer with
  \<open>2 powi e \<le> x < 2 powi (e + 1)\<close> (lemma \<open>binExp_bounds\<close> below); the
  representable numbers from \<open>2 powi e\<close> to \<open>2 powi (e + 1)\<close> are the multiples of
  \<open>2 powi (e - 52)\<close>, and \<open>x\<close> is rounded to the nearest of them. The exponent is not
  bounded: overflow to infinity and the subnormal numbers are left out, the feathering
  pass staying far from both.
\<close>

definition binExp :: "real \<Rightarrow> int" where
  "binExp x = (if 1 \<le> x then bitlen \<lfloor>x\<rfloor> - 1 else - bitlen (\<lceil>1 / x\<rceil> - 1))"

definition roundEven :: "real \<Rightarrow> int" where
  "roundEven t =
     (if t - real_of_int \<lfloor>t\<rfloor> < 1 / 2 then \<lfloor>t\<rfloor>
      else if 1 / 2 < t - real_of_int \<lfloor>t\<rfloor> then \<lfloor>t\<rfloor> + 1
      else if even \<lfloor>t\<rfloor> then \<lfloor>t\<rfloor> else \<lfloor>t\<rfloor> + 1)"

definition dblPos :: "real \<Rightarrow> real" where
  "dblPos x = real_of_int (roundEven (x / 2 powi (binExp x - 52))) * 2 powi (binExp x - 52)"

definition dbl :: "real \<Rightarrow> real" where
  "dbl x = (if x = 0 then 0 else if 0 < x then dblPos x else - dblPos (- x))"

text \<open>
  \<^verbatim>\<open>Math.floor(255 * (1 - distance / featherRadius))\<close> for
  \<^verbatim>\<open>distance = Math.sqrt(dx * dx + dy * dy)\<close>: a square root, a quotient, a
  difference and a product, each rounded. The sum of squares and the radius are
  integers far below \<open>2 ^ 53\<close>, which are represented exactly (lemma \<open>dbl_of_int\<close>
  below). The rounding shows at
  radius 5 and distance 4, where \<open>4 / 5\<close> is rounded upwards, the product comes out just
  below 51 and the code stores 50. The comparisons of square roots with integers
  (\<^verbatim>\<open>< 30\<close>, \<^verbatim>\<open>< colorTolerance\<close>, \<^verbatim>\<open>> threshold\<close>, \<^verbatim>\<open><= featherRadius\<close>)
  are written with the exact roots: the radicands being integers, a rounded root
  compares with an integer below \<open>2 ^ 25\<close> as the exact root does (lemmas
  \<open>rounded_colorDistance_less\<close>, \<open>rounded_magnitude_greater\<close> and
  \<open>rounded_offsetDistance_le\<close> below).
\<close>

definition fadeAlpha :: "int \<Rightarrow> int \<Rightarrow> int \<Rightarrow> int" where
  "fadeAlpha featherRadius dx dy =
     \<lfloor>dbl (255 * dbl (1 - dbl (dbl (offsetDistance dx dy) / real_of_int featherRadius)))\<rfloor>"

definition featherNeighbor :: "int list \<Rightarrow> nat \<Rightarrow> int \<Rightarrow> int \<Rightarrow> int \<Rightarrow> int \<Rightarrow> int \<Rightarrow> int list \<Rightarrow> int list" where
  "featherNeighbor alphaChannel w featherRadius x y dy dx newAlpha =
     (let neighborIdx = (y + dy) * int w + (x + dx) in
      if offsetDistance dx dy \<le> real_of_int featherRadius \<and> isPositiveAt alphaChannel neighborIdx
      then newAlpha[nat neighborIdx :=
             min (newAlpha ! nat neighborIdx) (fadeAlpha featherRadius dx dy)]
      else newAlpha)"

definition featherAround :: "int list \<Rightarrow> nat \<Rightarrow> int \<Rightarrow> int \<Rightarrow> int \<Rightarrow> int list \<Rightarrow> int list" where
  "featherAround alphaChannel w featherRadius y x newAlpha =
     (if isZeroAt alphaChannel (y * int w + x)
      then foldl (\<lambda>newAlpha dy.
             foldl (\<lambda>newAlpha dx. featherNeighbor alphaChannel w featherRadius x y dy dx newAlpha)
               newAlpha [- featherRadius .. featherRadius])
             newAlpha [- featherRadius .. featherRadius]
      else newAlpha)"

definition feather :: "int list \<Rightarrow> nat \<Rightarrow> nat \<Rightarrow> int \<Rightarrow> int list" where
  "feather alphaChannel w h featherRadius =
     (if featherRadius > 0
      then foldl (\<lambda>newAlpha y.
             foldl (\<lambda>newAlpha x. featherAround alphaChannel w featherRadius y x newAlpha)
               newAlpha [featherRadius .. int w - featherRadius - 1])
             alphaChannel [featherRadius .. int h - featherRadius - 1]
      else alphaChannel)"

subsection \<open>Applying the alpha channel\<close>

text \<open>A store into a \<^verbatim>\<open>Uint8ClampedArray\<close> clamps to 0..255; out of range it is dropped.\<close>

definition clamp8 :: "int \<Rightarrow> 8 word" where
  "clamp8 v = word_of_int (max 0 (min 255 v))"

definition applyAlpha :: "8 word list \<Rightarrow> int list \<Rightarrow> 8 word list" where
  "applyAlpha d alphaChannel =
     foldl (\<lambda>d i. d[i * 4 + 3 := clamp8 (alphaChannel ! i)]) d [0 ..< length alphaChannel]"

definition rawAlpha :: "ProcessingSettings \<Rightarrow> ImageData \<Rightarrow> int list" where
  "rawAlpha settings img =
     classify img (detectEdges img (edgeDetection settings * 10)) (getBackgroundColors img)
       (colorTolerance settings)"

definition finalAlpha :: "ProcessingSettings \<Rightarrow> ImageData \<Rightarrow> int list" where
  "finalAlpha settings img =
     feather (rawAlpha settings img) (width img) (height img) (feathering settings)"

definition removeBackground :: "ProcessingSettings \<Rightarrow> ImageData \<Rightarrow> ImageData" where
  "removeBackground settings img = img\<lparr>data := applyAlpha (data img) (finalAlpha settings img)\<rparr>"

section \<open>Auxiliary notions\<close>

text \<open>The squared distances that the comparisons of the code come down to.\<close>

definition sumSquares :: "rgb \<Rightarrow> rgb \<Rightarrow> int" where
  "sumSquares p c = (fst p - fst c) ^ 2 + (fst (snd p) - fst (snd c)) ^ 2 + (snd (snd p) - snd (snd c)) ^ 2"

definition sobelSquare :: "ImageData \<Rightarrow> nat \<Rightarrow> nat \<Rightarrow> int" where
  "sobelSquare img x y = sobelGx img x y * sobelGx img x y + sobelGy img x y * sobelGy img x y"

text \<open>A mask that is pointwise at most another of the same length.\<close>

definition below :: "int list \<Rightarrow> int list \<Rightarrow> bool" where
  "below raw na \<longleftrightarrow> length na = length raw \<and> (\<forall>i<length raw. na ! i \<le> raw ! i)"

text \<open>
  The minimum distance of a colour to the palette, as the description of the classifier
  words it; an empty palette has none.
\<close>

definition minDistance :: "rgb list \<Rightarrow> rgb \<Rightarrow> real option" where
  "minDistance palette p =
     (if palette = [] then None
      else Some (Min ((\<lambda>c. colorDistance (fst p) (fst (snd p)) (snd (snd p))
                              (fst c) (fst (snd c)) (snd (snd c))) ` set palette)))"

text \<open>What one step of the classification loop and of the edge loop stores.\<close>

definition classifiedAlpha :: "ImageData \<Rightarrow> bool list \<Rightarrow> rgb list \<Rightarrow> int \<Rightarrow> nat \<Rightarrow> nat \<Rightarrow> int \<Rightarrow> int" where
  "classifiedAlpha img edges bg tol y x old =
     (if isBackground bg tol (pixelRGB img (x, y)) \<and> \<not> edges ! (y * width img + x) then 0
      else if isBackground bg tol (pixelRGB img (x, y)) then 76 else old)"

definition edgeFlag :: "ImageData \<Rightarrow> int \<Rightarrow> nat \<Rightarrow> nat \<Rightarrow> bool \<Rightarrow> bool" where
  "edgeFlag img t y x old \<longleftrightarrow> magnitude img x y > real_of_int t"

text \<open>
  The clustering of the sampled colours as the description of the sampler words it: a
  sample within distance 30 of an earlier cluster joins the first such cluster, any
  other sample starts a new one. \<open>clusterReps\<close> lists the clusters by their first
  members, without the counts.
\<close>

definition near :: "rgb \<Rightarrow> rgb \<Rightarrow> bool" where
  "near p c \<longleftrightarrow>
     colorDistance (fst p) (fst (snd p)) (snd (snd p)) (fst c) (fst (snd c)) (snd (snd c)) < 30"

definition clusterReps :: "rgb list \<Rightarrow> rgb list" where
  "clusterReps ps =
     foldl (\<lambda>reps p. if list_ex (near p) reps then reps else reps @ [p]) [] ps"

text \<open>
  The feathering pass as a list of stores: each store lowers one cell to the minimum of
  its current value and a candidate. \<open>featherWrites\<close> lists the stores in the order of
  the four nested loops.
\<close>

definition lowerAt :: "int list \<Rightarrow> nat \<times> int \<Rightarrow> int list" where
  "lowerAt na kv = na[fst kv := min (na ! fst kv) (snd kv)]"

definition neighborWrites :: "int list \<Rightarrow> nat \<Rightarrow> int \<Rightarrow> int \<Rightarrow> int \<Rightarrow> int \<Rightarrow> int \<Rightarrow> (nat \<times> int) list" where
  "neighborWrites raw w R x y dy dx =
     (if offsetDistance dx dy \<le> real_of_int R \<and> isPositiveAt raw ((y + dy) * int w + (x + dx))
      then [(nat ((y + dy) * int w + (x + dx)), fadeAlpha R dx dy)] else [])"

definition aroundWrites :: "int list \<Rightarrow> nat \<Rightarrow> int \<Rightarrow> int \<Rightarrow> int \<Rightarrow> (nat \<times> int) list" where
  "aroundWrites raw w R y x =
     (if isZeroAt raw (y * int w + x)
      then concat (map (\<lambda>dy. concat (map (\<lambda>dx. neighborWrites raw w R x y dy dx) [- R .. R])) [- R .. R])
      else [])"

definition featherWrites :: "int list \<Rightarrow> nat \<Rightarrow> nat \<Rightarrow> int \<Rightarrow> (nat \<times> int) list" where
  "featherWrites raw w h R =
     concat (map (\<lambda>y. concat (map (\<lambda>x. aroundWrites raw w R y x) [R .. int w - R - 1]))
       [R .. int h - R - 1])"

text \<open>
  The palette as the description words it. \<open>firstIndex S c\<close> is the position at which
  the colour \<open>c\<close> is first sampled, \<open>clusterOf S p\<close> the cluster that the sample \<open>p\<close>
  joins (the first one within distance 30) and \<open>clusterCount S c\<close> the number of samples
  that join the cluster of \<open>c\<close>. \<open>specPalette\<close> ranks the clusters by descending count
  and, among equal counts, by the position of their first sample, and keeps the first
  three.
\<close>

definition firstIndex :: "rgb list \<Rightarrow> rgb \<Rightarrow> nat" where
  "firstIndex S c = length (takeWhile (\<lambda>p. p \<noteq> c) S)"

definition clusterOf :: "rgb list \<Rightarrow> rgb \<Rightarrow> rgb option" where
  "clusterOf S p = find (near p) (clusterReps S)"

definition clusterCount :: "rgb list \<Rightarrow> rgb \<Rightarrow> int" where
  "clusterCount S c = int (length (filter (\<lambda>p. clusterOf S p = Some c) S))"

definition specPalette :: "rgb list \<Rightarrow> rgb list" where
  "specPalette S =
     map fst (take 3 (sort_key (\<lambda>(c, n). (- n, firstIndex S c))
                        (map (\<lambda>c. (c, clusterCount S c)) (clusterReps S))))"

text \<open>
  A feathering source is a pixel that the two outer loops visit and whose raw alpha is 0;
  the candidates of a pixel are the values proposed for it by the sources within the
  radius.
\<close>

definition isSource :: "int list \<Rightarrow> nat \<Rightarrow> nat \<Rightarrow> int \<Rightarrow> int \<Rightarrow> int \<Rightarrow> bool" where
  "isSource raw w h R sx sy \<longleftrightarrow>
     R \<le> sx \<and> sx < int w - R \<and> R \<le> sy \<and> sy < int h - R \<and> isZeroAt raw (sy * int w + sx)"

definition candidates :: "int list \<Rightarrow> nat \<Rightarrow> nat \<Rightarrow> int \<Rightarrow> nat \<Rightarrow> nat \<Rightarrow> int set" where
  "candidates raw w h R px py =
     {fadeAlpha R (int px - sx) (int py - sy) | sx sy.
        isSource raw w h R sx sy \<and>
        offsetDistance (int px - sx) (int py - sy) \<le> real_of_int R}"

text \<open>
  The rounded square root of an integer, computed without real square roots: \<open>isqrt n\<close>
  is the integer square root, by halving; \<open>roundRoot q f\<close> rounds the root of \<open>q\<close> to
  the nearest integer, ties to even, given its integer part \<open>f\<close>; and \<open>sqrtDbl k\<close> is
  the root of \<open>k\<close> rounded to a multiple of the unit \<open>u\<close> of its exponent. It makes the
  feathering pass executable.
\<close>

function isqrt :: "int \<Rightarrow> int" where
  "isqrt n =
     (if n < 1 then 0
      else if n < 4 then 1
      else let r = 2 * isqrt (n div 4) in if (r + 1) * (r + 1) \<le> n then r + 1 else r)"
  by pat_completeness auto
termination
  by (relation "measure nat") auto

declare isqrt.simps [simp del]

definition roundRoot :: "real \<Rightarrow> int \<Rightarrow> int" where
  "roundRoot q f =
     (if q < (real_of_int f + 1 / 2) * (real_of_int f + 1 / 2) then f
      else if (real_of_int f + 1 / 2) * (real_of_int f + 1 / 2) < q then f + 1
      else if even f then f else f + 1)"

definition scaledRoot :: "real \<Rightarrow> int" where
  "scaledRoot q = roundRoot q (isqrt \<lfloor>q\<rfloor>)"

definition rootAt :: "int \<Rightarrow> real \<Rightarrow> real" where
  "rootAt k u = real_of_int (scaledRoot (real_of_int k / (u * u))) * u"

definition sqrtDbl :: "int \<Rightarrow> real" where
  "sqrtDbl k = (if k \<le> 0 then 0 else rootAt k (2 powi ((bitlen k - 1) div 2 - 52)))"

text \<open>Small concrete inputs on which the theorems below are exercised.\<close>

definition stripImage :: ImageData where
  "stripImage = \<lparr>data = [0, 0, 255, 255,  0, 0, 255, 255,  255, 0, 0, 255], width = 3, height = 1\<rparr>"

definition flatImage :: ImageData where
  "flatImage = \<lparr>data = replicate 36 7, width = 3, height = 3\<rparr>"

definition spotMask :: "int list" where
  "spotMask = [255, 255, 255,  76, 0, 255,  255, 255, 255]"

text \<open>
  An 11 x 1 raster, blue at 0, green at 5, red at 10 and grey between them. The sampler
  reads blue three times, green twice and red three times.
\<close>

definition podiumImage :: ImageData where
  "podiumImage = \<lparr>data = [0, 0, 255, 255,  9, 9, 9, 255,  9, 9, 9, 255,  9, 9, 9, 255,
                          9, 9, 9, 255,  0, 255, 0, 255,  9, 9, 9, 255,  9, 9, 9, 255,
                          9, 9, 9, 255,  9, 9, 9, 255,  255, 0, 0, 255],
                   width = 11, height = 1\<rparr>"

text \<open>The same raster with another red and alpha byte in pixel 1, which is not sampled.\<close>

definition podiumVariant :: ImageData where
  "podiumVariant = podiumImage\<lparr>data := (data podiumImage)[4 := 77, 7 := 0]\<rparr>"

text \<open>An 8 x 5 mask, opaque except for the two pixels (2, 2) and (5, 2).\<close>

definition twoSpotMask :: "int list" where
  "twoSpotMask = (replicate 40 255)[18 := 0, 21 := 0]"

text \<open>An 11 x 11 mask, opaque except for its centre (5, 5).\<close>

definition centreMask :: "int list" where
  "centreMask = (replicate 121 255)[60 := 0]"

text \<open>
  The 10 x 10 raster of the end-to-end scenario: a one-pixel ring of opaque blue around
  an 8 x 8 block of opaque red, with tolerance 30, edge sensitivity 1 and no feathering.
\<close>

definition onRing :: "nat \<Rightarrow> nat \<Rightarrow> bool" where
  "onRing x y \<longleftrightarrow> x = 0 \<or> y = 0 \<or> x = 9 \<or> y = 9"

definition ringPixel :: "nat \<Rightarrow> 8 word list" where
  "ringPixel i =
     (if onRing (i mod 10) (i div 10) then [0, 0, 255, 255] else [255, 0, 0, 255])"

definition ringImage :: ImageData where
  "ringImage = \<lparr>data = concat (map ringPixel [0 ..< 100]), width = 10, height = 10\<rparr>"

definition ringSettings :: ProcessingSettings where
  "ringSettings = \<lparr>colorTolerance = 30, edgeDetection = 1, feathering = 0\<rparr>"


section \<open>Comparing square roots of integers\<close>

lemma sqrt_less_of_int:
  "0 \<le> n \<Longrightarrow> sqrt (real_of_int n) < real_of_int t \<longleftrightarrow> 0 < t \<and> n < t * t"
proof (cases "0 < t")
  case True
  assume n: "0 \<le> n"
  have "sqrt (real_of_int n) < real_of_int t \<longleftrightarrow> real_of_int n < (real_of_int t)\<^sup>2"
    using True n by (metis of_int_0_le_iff of_int_0_less_iff real_sqrt_less_iff real_sqrt_abs abs_of_pos)
  also have "\<dots> \<longleftrightarrow> n < t * t"
    by (metis of_int_less_iff of_int_mult power2_eq_square)
  finally show ?thesis using True by simp
next
  case False
  assume "0 \<le> n"
  then have "0 \<le> sqrt (real_of_int n)" by simp
  moreover have "real_of_int t \<le> 0" using False by simp
  ultimately show ?thesis using False by linarith
qed

lemma of_int_less_sqrt:
  "0 \<le> n \<Longrightarrow> real_of_int t < sqrt (real_of_int n) \<longleftrightarrow> t < 0 \<or> t * t < n"
proof (cases "0 \<le> t")
  case True
  assume n: "0 \<le> n"
  have "real_of_int t < sqrt (real_of_int n) \<longleftrightarrow> (real_of_int t)\<^sup>2 < real_of_int n"
    using True n by (metis of_int_0_le_iff real_sqrt_less_iff real_sqrt_abs abs_of_nonneg)
  also have "\<dots> \<longleftrightarrow> t * t < n"
    by (metis of_int_less_iff of_int_mult power2_eq_square)
  finally show ?thesis using True by simp
next
  case False
  assume "0 \<le> n"
  then have "0 \<le> sqrt (real_of_int n)" by simp
  moreover have "real_of_int t < 0" using False by simp
  ultimately show ?thesis using False by linarith
qed

lemma sqrt_le_of_int:
  "0 \<le> n \<Longrightarrow> sqrt (real_of_int n) \<le> real_of_int t \<longleftrightarrow> 0 \<le> t \<and> n \<le> t * t"
  using of_int_less_sqrt [of n t] by (auto simp: not_less [symmetric])

lemma sumSquares_nonneg: "0 \<le> sumSquares p c" by (simp add: sumSquares_def)

lemma colorDistance_less:
  "colorDistance (fst p) (fst (snd p)) (snd (snd p)) (fst c) (fst (snd c)) (snd (snd c)) < real_of_int t
   \<longleftrightarrow> 0 < t \<and> sumSquares p c < t * t"
  unfolding colorDistance_def using sqrt_less_of_int [OF sumSquares_nonneg, of p c t]
  by (simp add: sumSquares_def)

lemma findSimilar_code [code]:
  "findSimilar p [] = None"
  "findSimilar p ((c, n) # colors) =
     (if sumSquares p c < 900 then Some ((c, n + 1) # colors)
      else map_option (\<lambda>cs. (c, n) # cs) (findSimilar p colors))"
  using colorDistance_less [of p c 30] by simp_all

lemma near_code [code]: "near p c \<longleftrightarrow> sumSquares p c < 900"
  unfolding near_def using colorDistance_less [of p c 30] by simp

lemma isBackground_code [code]:
  "isBackground backgroundColors tol p =
     list_ex (\<lambda>bgColor. 0 < tol \<and> sumSquares p bgColor < tol * tol) backgroundColors"
  unfolding isBackground_def colorDistance_less ..

lemma magnitude_greater:
  "magnitude img x y > real_of_int t \<longleftrightarrow> t < 0 \<or> t * t < sobelSquare img x y"
  unfolding magnitude_def sobelSquare_def
  by (rule of_int_less_sqrt) simp

lemma detectEdges_code [code]:
  "detectEdges img threshold =
     foldl (\<lambda>edges y.
        foldl (\<lambda>edges x. edges[y * width img + x := (threshold < 0 \<or> threshold * threshold < sobelSquare img x y)])
          edges [1 ..< width img - 1])
       (replicate (width img * height img) False) [1 ..< height img - 1]"
  unfolding detectEdges_def magnitude_greater ..


section \<open>Rounding to double precision\<close>

lemma two_powi_nonneg: "0 \<le> e \<Longrightarrow> (2 :: real) powi e = 2 ^ nat e"
  by (simp add: power_int_def)

lemma two_powi_neg: "0 \<le> j \<Longrightarrow> (2 :: real) powi (- j) = 1 / 2 ^ nat j"
  by (simp add: power_int_minus two_powi_nonneg divide_inverse)

lemma two_powi_pos: "0 < (2 :: real) powi e"
  by simp

lemma two_powi_mono: "e \<le> e' \<Longrightarrow> (2 :: real) powi e \<le> 2 powi e'"
  by (rule power_int_increasing) simp_all

lemma two_powi_Suc: "(2 :: real) powi (e + 1) = 2 * 2 powi e"
  by (simp add: power_int_add)

lemma binExp_bounds:
  assumes "0 < x"
  shows "2 powi (binExp x) \<le> x" "x < 2 powi (binExp x + 1)"
proof -
  have "2 powi (binExp x) \<le> x \<and> x < 2 powi (binExp x + 1)"
  proof (cases "1 \<le> x")
    case True
    let ?n = "\<lfloor>x\<rfloor>"
    have n: "0 < ?n" using True by simp
    note b = bitlen_bounds [OF n]
    have e: "0 \<le> bitlen ?n - 1" using n by (simp add: bitlen_alt_def)
    have "real_of_int (2 ^ nat (bitlen ?n - 1)) \<le> real_of_int ?n" using b by (simp only: of_int_le_iff)
    then have r0: "2 ^ nat (bitlen ?n - 1) \<le> real_of_int ?n" by simp
    have "real_of_int ?n \<le> x" by linarith
    then have lo: "2 powi (bitlen ?n - 1) \<le> x"
      unfolding two_powi_nonneg [OF e] using r0 by linarith
    have "?n + 1 \<le> 2 ^ nat (bitlen ?n)" using b by simp
    then have "real_of_int (?n + 1) \<le> real_of_int (2 ^ nat (bitlen ?n))" by (simp only: of_int_le_iff)
    then have r1: "real_of_int ?n + 1 \<le> 2 ^ nat (bitlen ?n)" by simp
    have r2: "x < real_of_int ?n + 1" by linarith
    have "x < 2 ^ nat (bitlen ?n)" using r1 r2 by linarith
    then have hi: "x < 2 powi (bitlen ?n - 1 + 1)"
      using two_powi_nonneg [of "bitlen ?n"] bitlen_nonneg [of ?n] by simp
    show ?thesis using True lo hi by (simp add: binExp_def)
  next
    case False
    let ?y = "1 / x"
    let ?n = "\<lceil>?y\<rceil> - 1"
    have y: "1 < ?y" using False assms by simp
    then have n: "0 < ?n" by linarith
    note b = bitlen_bounds [OF n]
    have j: "0 \<le> bitlen ?n" by (rule bitlen_nonneg)
    have j1: "0 \<le> bitlen ?n - 1" using n by (simp add: bitlen_alt_def)
    have "?n + 1 \<le> 2 ^ nat (bitlen ?n)" using b by simp
    then have "real_of_int (?n + 1) \<le> real_of_int (2 ^ nat (bitlen ?n))" by (simp only: of_int_le_iff)
    then have r1: "real_of_int ?n + 1 \<le> 2 ^ nat (bitlen ?n)" by simp
    have r2: "?y \<le> real_of_int ?n + 1" by linarith
    have "?y \<le> 2 ^ nat (bitlen ?n)" using r1 r2 by linarith
    then have "1 / 2 ^ nat (bitlen ?n) \<le> x"
      using assms by (simp add: field_simps)
    then have lo: "2 powi (- bitlen ?n) \<le> x" unfolding two_powi_neg [OF j] .
    have "real_of_int (2 ^ nat (bitlen ?n - 1)) \<le> real_of_int ?n" using b by (simp only: of_int_le_iff)
    then have r3: "2 ^ nat (bitlen ?n - 1) \<le> real_of_int ?n" by simp
    have r4: "real_of_int ?n < ?y" by linarith
    have "2 ^ nat (bitlen ?n - 1) < ?y" using r3 r4 by linarith
    then have "x < 1 / 2 ^ nat (bitlen ?n - 1)"
      using assms by (simp add: field_simps)
    then have "x < 2 powi (- (bitlen ?n - 1))" unfolding two_powi_neg [OF j1] .
    then have hi: "x < 2 powi (- bitlen ?n + 1)" by simp
    show ?thesis using False lo hi by (simp add: binExp_def)
  qed
  then show "2 powi (binExp x) \<le> x" "x < 2 powi (binExp x + 1)" by simp_all
qed

lemma binExp_unique:
  assumes "2 powi e \<le> x" "x < 2 powi (e + 1)"
  shows "binExp x = e"
proof -
  have x: "0 < x" using assms(1) two_powi_pos [of e] by linarith
  note b = binExp_bounds [OF x]
  have "\<not> binExp x < e"
  proof
    assume "binExp x < e"
    then have "2 powi (binExp x + 1) \<le> (2 :: real) powi e" by (intro two_powi_mono) simp
    then show False using b(2) assms(1) by linarith
  qed
  moreover have "\<not> e < binExp x"
  proof
    assume "e < binExp x"
    then have "2 powi (e + 1) \<le> (2 :: real) powi (binExp x)" by (intro two_powi_mono) simp
    then show False using b(1) assms(2) by linarith
  qed
  ultimately show ?thesis by simp
qed

lemma binExp_mono:
  assumes "0 < x" "x \<le> y"
  shows "binExp x \<le> binExp y"
proof (rule ccontr)
  assume "\<not> binExp x \<le> binExp y"
  then have "2 powi (binExp y + 1) \<le> (2 :: real) powi (binExp x)" by (intro two_powi_mono) simp
  moreover have "0 < y" using assms by simp
  ultimately show False
    using binExp_bounds(1) [OF assms(1)] binExp_bounds(2) [OF \<open>0 < y\<close>] assms(2) by linarith
qed


lemma two_powi_split:
  "(2 :: real) powi e = 2 ^ 52 * 2 powi (e - 52)"
  "(2 :: real) powi (e + 1) = 2 ^ 53 * 2 powi (e - 52)"
proof -
  have a: "(2 :: real) powi (52 + (e - 52)) = 2 powi 52 * 2 powi (e - 52)"
    by (rule power_int_add) simp
  have b: "52 + (e - 52) = e" by simp
  show "(2 :: real) powi e = 2 ^ 52 * 2 powi (e - 52)" using a unfolding b by simp
  have c: "(2 :: real) powi (53 + (e - 52)) = 2 powi 53 * 2 powi (e - 52)"
    by (rule power_int_add) simp
  have d: "53 + (e - 52) = e + 1" by simp
  show "(2 :: real) powi (e + 1) = 2 ^ 53 * 2 powi (e - 52)" using c unfolding d by simp
qed

lemma roundEven_of_int: "roundEven (real_of_int n) = n"
  by (simp add: roundEven_def)

lemma roundEven_near: "\<bar>real_of_int (roundEven t) - t\<bar> \<le> 1 / 2"
  unfolding roundEven_def by (auto simp: abs_le_iff)

lemma roundEven_floor: "\<lfloor>t\<rfloor> \<le> roundEven t" "roundEven t \<le> \<lfloor>t\<rfloor> + 1"
  by (simp_all add: roundEven_def)

lemma roundEven_mono:
  assumes "s \<le> t"
  shows "roundEven s \<le> roundEven t"
proof (cases "\<lfloor>s\<rfloor> = \<lfloor>t\<rfloor>")
  case True
  have "s - real_of_int \<lfloor>s\<rfloor> \<le> t - real_of_int \<lfloor>t\<rfloor>" using assms True by simp
  then show ?thesis unfolding roundEven_def True by auto
next
  case False
  have "\<lfloor>s\<rfloor> \<le> \<lfloor>t\<rfloor>" using assms by (rule floor_mono)
  then have "\<lfloor>s\<rfloor> + 1 \<le> \<lfloor>t\<rfloor>" using False by simp
  then show ?thesis using roundEven_floor(2) [of s] roundEven_floor(1) [of t] by linarith
qed

lemma scaled_bounds:
  assumes "0 < x"
  shows "2 ^ 52 \<le> x / 2 powi (binExp x - 52)" "x / 2 powi (binExp x - 52) < 2 ^ 53"
proof -
  note u = two_powi_split(1) [of "binExp x"] and v = two_powi_split(2) [of "binExp x"]
  note b = binExp_bounds [OF assms]
  show "2 ^ 52 \<le> x / 2 powi (binExp x - 52)"
    using b(1) unfolding u by (simp add: pos_le_divide_eq)
  show "x / 2 powi (binExp x - 52) < 2 ^ 53"
    using b(2) unfolding v by (simp add: pos_divide_less_eq)
qed

lemma dblPos_bounds:
  assumes "0 < x"
  shows "2 powi (binExp x) \<le> dblPos x" "dblPos x \<le> 2 powi (binExp x + 1)"
proof -
  let ?u = "(2 :: real) powi (binExp x - 52)"
  let ?t = "x / ?u"
  note s = scaled_bounds [OF assms]
  note u = two_powi_split(1) [of "binExp x"] and v = two_powi_split(2) [of "binExp x"]
  have "roundEven (real_of_int (2 ^ 52)) \<le> roundEven ?t"
    using s(1) by (intro roundEven_mono) simp
  then have "(2 :: int) ^ 52 \<le> roundEven ?t" unfolding roundEven_of_int .
  then have "real_of_int (2 ^ 52) \<le> real_of_int (roundEven ?t)" by (simp only: of_int_le_iff)
  then have lo: "2 ^ 52 \<le> real_of_int (roundEven ?t)" by simp
  have "roundEven ?t \<le> roundEven (real_of_int (2 ^ 53))"
    using s(2) by (intro roundEven_mono) simp
  then have "roundEven ?t \<le> (2 :: int) ^ 53" unfolding roundEven_of_int .
  then have "real_of_int (roundEven ?t) \<le> real_of_int (2 ^ 53)" by (simp only: of_int_le_iff)
  then have hi: "real_of_int (roundEven ?t) \<le> 2 ^ 53" by simp
  show "2 powi (binExp x) \<le> dblPos x"
    unfolding u dblPos_def using lo by (intro mult_right_mono) simp_all
  show "dblPos x \<le> 2 powi (binExp x + 1)"
    unfolding v dblPos_def using hi by (intro mult_right_mono) simp_all
qed

lemma dblPos_pos: "0 < x \<Longrightarrow> 0 < dblPos x"
  using dblPos_bounds(1) [of x] two_powi_pos [of "binExp x"] by linarith

lemma dblPos_mono:
  assumes "0 < x" "x \<le> y"
  shows "dblPos x \<le> dblPos y"
proof (cases "binExp x = binExp y")
  case True
  let ?u = "(2 :: real) powi (binExp y - 52)"
  have "x / ?u \<le> y / ?u" using assms(2) by (intro divide_right_mono) simp_all
  then have "roundEven (x / ?u) \<le> roundEven (y / ?u)" by (rule roundEven_mono)
  then have "real_of_int (roundEven (x / ?u)) \<le> real_of_int (roundEven (y / ?u))"
    by (simp only: of_int_le_iff)
  then show ?thesis unfolding dblPos_def True by (intro mult_right_mono) simp_all
next
  case False
  have y: "0 < y" using assms by simp
  have "binExp x \<le> binExp y" by (rule binExp_mono [OF assms])
  then have "binExp x + 1 \<le> binExp y" using False by simp
  then have "(2 :: real) powi (binExp x + 1) \<le> 2 powi (binExp y)" by (rule two_powi_mono)
  then show ?thesis using dblPos_bounds(2) [OF assms(1)] dblPos_bounds(1) [OF y] by linarith
qed

lemma dbl_nonneg: "0 \<le> x \<Longrightarrow> 0 \<le> dbl x"
  using dblPos_pos [of x] by (auto simp: dbl_def less_eq_real_def)

lemma dbl_nonpos: "x \<le> 0 \<Longrightarrow> dbl x \<le> 0"
  using dblPos_pos [of "- x"] by (auto simp: dbl_def less_eq_real_def)

lemma dbl_mono:
  assumes "x \<le> y"
  shows "dbl x \<le> dbl y"
proof -
  consider "x \<le> 0" "0 \<le> y" | "0 < x" | "y < 0" using assms by linarith
  then show ?thesis
  proof cases
    case 1
    then show ?thesis using dbl_nonpos [of x] dbl_nonneg [of y] by linarith
  next
    case 2
    then show ?thesis using dblPos_mono [OF 2 assms] assms by (simp add: dbl_def)
  next
    case 3
    then have "0 < - y" "- y \<le> - x" using assms by simp_all
    then have "dblPos (- y) \<le> dblPos (- x)" by (rule dblPos_mono)
    then show ?thesis using 3 assms by (simp add: dbl_def)
  qed
qed

lemma dbl_zero: "dbl 0 = 0"
  by (simp add: dbl_def)

lemma dbl_one: "dbl 1 = 1"
proof -
  have "binExp 1 = 0" by (rule binExp_unique) simp_all
  then show ?thesis by (simp add: dbl_def dblPos_def roundEven_def)
qed

lemma dbl_upper:
  assumes "0 < x"
  shows "dbl x \<le> x * (1 + 1 / 2 ^ 53)"
proof -
  let ?u = "(2 :: real) powi (binExp x - 52)"
  have u0: "0 < ?u" by simp
  have "real_of_int (roundEven (x / ?u)) \<le> x / ?u + 1 / 2"
    using roundEven_near [of "x / ?u"] by linarith
  then have "real_of_int (roundEven (x / ?u)) * ?u \<le> (x / ?u + 1 / 2) * ?u"
    using u0 by (intro mult_right_mono) simp_all
  moreover have "(x / ?u + 1 / 2) * ?u = x + ?u / 2" using u0 by (simp add: distrib_right)
  ultimately have a: "dblPos x \<le> x + ?u / 2" by (simp add: dblPos_def)
  have "2 ^ 52 * ?u \<le> x"
    using binExp_bounds(1) [OF assms] unfolding two_powi_split(1) [of "binExp x"] .
  then have "?u / 2 \<le> x / 2 ^ 53" by simp
  moreover have "x * (1 + 1 / 2 ^ 53) = x + x / 2 ^ 53" by (simp add: distrib_left)
  ultimately show ?thesis using a assms by (simp add: dbl_def)
qed

lemma dbl_just_above_one: "dbl (1 + 1 / 2 ^ 53) = 1"
proof -
  define x :: real where "x = 1 + 1 / 2 ^ 53"
  have x: "0 < x" by (simp add: x_def)
  have e: "binExp x = 0" by (rule binExp_unique) (simp_all add: x_def)
  have t: "x / 2 powi (binExp x - 52) = 2 ^ 52 + 1 / 2"
    unfolding e by (simp add: x_def power_int_minus field_simps)
  have f: "\<lfloor>2 ^ 52 + 1 / 2 :: real\<rfloor> = 2 ^ 52"
    by (rule floor_unique) simp_all
  have r: "roundEven (x / 2 powi (binExp x - 52)) = 2 ^ 52"
    unfolding t roundEven_def f by simp
  have "dblPos x = real_of_int (2 ^ 52) * 2 powi (binExp x - 52)"
    unfolding dblPos_def r ..
  then have "dblPos x = 1" unfolding e by (simp add: power_int_minus)
  then have "dbl x = 1" using x by (simp add: dbl_def)
  then show ?thesis unfolding x_def .
qed


lemma dblPos_of_int:
  assumes "0 < n" "n < 2 ^ 53"
  shows "dblPos (real_of_int n) = real_of_int n"
proof -
  define e where "e = binExp (real_of_int n)"
  have n: "0 < real_of_int n" using assms(1) by simp
  have "\<not> 53 \<le> e"
  proof
    assume "53 \<le> e"
    then have "(2 :: real) powi 53 \<le> 2 powi e" by (rule two_powi_mono)
    also have "\<dots> \<le> real_of_int n" unfolding e_def by (rule binExp_bounds(1) [OF n])
    finally have "real_of_int (2 ^ 53) \<le> real_of_int n" by (simp add: two_powi_nonneg)
    then have "(2 :: int) ^ 53 \<le> n" by (simp only: of_int_le_iff)
    then show False using assms(2) by simp
  qed
  then have j: "0 \<le> 52 - e" by simp
  have u: "(2 :: real) powi (e - 52) = 1 / 2 ^ nat (52 - e)"
    using two_powi_neg [OF j] by simp
  have "real_of_int n / (1 / 2 ^ nat (52 - e)) = real_of_int (n * 2 ^ nat (52 - e))" by simp
  then have "roundEven (real_of_int n / (1 / 2 ^ nat (52 - e))) = n * 2 ^ nat (52 - e)"
    by (simp only: roundEven_of_int)
  then show ?thesis unfolding dblPos_def e_def [symmetric] u by simp
qed

lemma dbl_of_int:
  assumes "\<bar>n\<bar> < 2 ^ 53"
  shows "dbl (real_of_int n) = real_of_int n"
proof -
  consider "n = 0" | "0 < n" | "n < 0" by linarith
  then show ?thesis
  proof cases
    case 1
    then show ?thesis by (simp add: dbl_def)
  next
    case 2
    then show ?thesis using assms dblPos_of_int [of n] by (simp add: dbl_def)
  next
    case 3
    then have "dblPos (real_of_int (- n)) = real_of_int (- n)"
      using assms by (intro dblPos_of_int) simp_all
    then show ?thesis using 3 by (simp add: dbl_def)
  qed
qed


text \<open>Rounded square roots of integers against integer bounds.\<close>

lemma dbl_lower:
  assumes "0 < x"
  shows "x * (1 - 1 / 2 ^ 53) \<le> dbl x"
proof -
  let ?u = "(2 :: real) powi (binExp x - 52)"
  have u0: "0 < ?u" by simp
  have "x / ?u - 1 / 2 \<le> real_of_int (roundEven (x / ?u))"
    using roundEven_near [of "x / ?u"] by linarith
  then have "(x / ?u - 1 / 2) * ?u \<le> real_of_int (roundEven (x / ?u)) * ?u"
    using u0 by (intro mult_right_mono) simp_all
  moreover have "(x / ?u - 1 / 2) * ?u = x - ?u / 2" using u0 by (simp add: left_diff_distrib)
  ultimately have a: "x - ?u / 2 \<le> dblPos x" by (simp add: dblPos_def)
  have "2 ^ 52 * ?u \<le> x"
    using binExp_bounds(1) [OF assms] unfolding two_powi_split(1) [of "binExp x"] .
  then have "?u / 2 \<le> x / 2 ^ 53" by simp
  moreover have "x * (1 - 1 / 2 ^ 53) = x - x / 2 ^ 53" by (simp add: right_diff_distrib)
  ultimately show ?thesis using a assms by (simp add: dbl_def)
qed

lemma dbl_sqrt_less:
  assumes k: "0 \<le> k" and t: "t < 2 ^ 25" and lt: "sqrt (real_of_int k) < real_of_int t"
  shows "dbl (sqrt (real_of_int k)) < real_of_int t"
proof (cases "k = 0")
  case True
  then show ?thesis using lt by (simp add: dbl_zero)
next
  case False
  define T where "T = real_of_int t"
  define x where "x = sqrt (real_of_int k)"
  define e :: real where "e = 1 / 2 ^ 53"
  define d where "d = 1 / (2 * T)"
  have x: "0 < x" using k False by (simp add: x_def)
  have tk: "0 < t" "k < t * t" using lt sqrt_less_of_int [OF k, of t] by simp_all
  then have T1: "1 \<le> T" by (simp add: T_def)
  have "t \<le> 2 ^ 25 - 1" using t by simp
  then have "real_of_int t \<le> real_of_int (2 ^ 25 - 1)" by (simp only: of_int_le_iff)
  then have T2: "T \<le> 2 ^ 25" by (simp add: T_def)
  have e: "0 < e" "e * 2 ^ 53 = 1" by (simp_all add: e_def)
  have d: "0 < d" "2 * T * d = 1" using T1 by (simp_all add: d_def)
  have "k + 1 \<le> t * t" using tk(2) by simp
  then have "real_of_int (k + 1) \<le> real_of_int (t * t)" by (simp only: of_int_le_iff)
  then have kT: "real_of_int k \<le> T * T - 1" by (simp add: T_def)
  have "(T - d) * (T - d) = T * T - 2 * T * d + d * d" by (simp add: algebra_simps)
  also have "\<dots> = T * T - 1 + d * d" unfolding d(2) by simp
  finally have "T * T - 1 \<le> (T - d)\<^sup>2" using d(1) by (simp add: power2_eq_square)
  then have k2: "real_of_int k \<le> (T - d)\<^sup>2" using kT by linarith
  have "d \<le> 1" using T1 by (simp add: d_def)
  then have y0: "0 \<le> T - d" using T1 by linarith
  have xy: "x \<le> T - d" unfolding x_def using y0 k2 by (rule real_le_lsqrt)
  have "T * T \<le> 2 ^ 25 * 2 ^ 25" using T1 T2 by (intro mult_mono) simp_all
  then have "T * T * e \<le> 2 ^ 25 * 2 ^ 25 * e" using e(1) by (intro mult_right_mono) simp_all
  also have "\<dots> = 1 / 8" by (simp add: e_def)
  finally have TTe: "2 * T * (T * e) \<le> 1 / 4" by simp
  have Te: "T * e < d"
  proof (rule ccontr)
    assume "\<not> T * e < d"
    then have "d \<le> T * e" by simp
    then have "2 * T * d \<le> 2 * T * (T * e)" using T1 by (intro mult_left_mono) simp_all
    then show False using TTe d(2) by simp
  qed
  have "dbl x \<le> x * (1 + e)" unfolding e_def by (rule dbl_upper [OF x])
  also have "\<dots> \<le> (T - d) * (1 + e)" using xy e(1) by (intro mult_right_mono) simp_all
  also have "\<dots> = T + T * e - d - d * e" by (simp add: algebra_simps)
  also have "\<dots> < T" using Te mult_pos_pos [OF d(1) e(1)] by linarith
  finally show ?thesis unfolding x_def T_def .
qed

lemma dbl_sqrt_greater:
  assumes t0: "0 \<le> t" and t: "t < 2 ^ 25" and lt: "real_of_int t < sqrt (real_of_int k)"
  shows "real_of_int t < dbl (sqrt (real_of_int k))"
proof -
  define T where "T = real_of_int t"
  define x where "x = sqrt (real_of_int k)"
  define e :: real where "e = 1 / 2 ^ 53"
  define d where "d = 1 / (2 * T + 1)"
  have T0: "0 \<le> T" using t0 by (simp add: T_def)
  have x: "0 < x" using lt T0 unfolding x_def T_def by linarith
  then have k: "0 \<le> k" unfolding x_def by (simp add: less_eq_real_def)
  have tk: "t * t < k" using lt of_int_less_sqrt [OF k, of t] t0 by simp
  have "t \<le> 2 ^ 25 - 1" using t by simp
  then have "real_of_int t \<le> real_of_int (2 ^ 25 - 1)" by (simp only: of_int_le_iff)
  then have T2: "T + 1 \<le> 2 ^ 25" by (simp add: T_def)
  have e: "0 < e" "e < 1" by (simp_all add: e_def)
  have d: "0 < d" "(2 * T + 1) * d = 1" "d \<le> 1" using T0 by (simp_all add: d_def)
  have "t * t + 1 \<le> k" using tk by simp
  then have "real_of_int (t * t + 1) \<le> real_of_int k" by (simp only: of_int_le_iff)
  then have kT: "T * T + 1 \<le> real_of_int k" by (simp add: T_def)
  have "d * d \<le> 1 * d" using d(1,3) by (intro mult_right_mono) simp_all
  then have "(T + d) * (T + d) \<le> T * T + (2 * T + 1) * d" by (simp add: algebra_simps)
  then have "(T + d)\<^sup>2 \<le> T * T + 1" unfolding d(2) by (simp add: power2_eq_square)
  then have "(T + d)\<^sup>2 \<le> real_of_int k" using kT by linarith
  then have xy: "T + d \<le> x" unfolding x_def by (rule real_le_rsqrt)
  have "(2 * T + 1) * (T + 1) \<le> (2 * 2 ^ 25) * 2 ^ 25" using T0 T2 by (intro mult_mono) simp_all
  then have "(2 * T + 1) * (T + 1) * e \<le> (2 * 2 ^ 25) * 2 ^ 25 * e"
    using e(1) by (intro mult_right_mono) simp_all
  also have "\<dots> = 1 / 4" by (simp add: e_def)
  finally have TTe: "(2 * T + 1) * ((T + 1) * e) \<le> 1 / 4" by (simp add: mult.assoc)
  have Te: "(T + 1) * e < d"
  proof (rule ccontr)
    assume "\<not> (T + 1) * e < d"
    then have "d \<le> (T + 1) * e" by simp
    then have "(2 * T + 1) * d \<le> (2 * T + 1) * ((T + 1) * e)"
      using T0 by (intro mult_left_mono) simp_all
    then show False using TTe d(2) by simp
  qed
  have "(T + d) * e \<le> (T + 1) * e" using d(3) e(1) by (intro mult_right_mono) simp_all
  then have "T < T + d - (T + d) * e" using Te by linarith
  also have "\<dots> = (T + d) * (1 - e)" by (simp add: algebra_simps)
  also have "\<dots> \<le> x * (1 - e)" using xy e(2) by (intro mult_right_mono) simp_all
  also have "\<dots> \<le> dbl x" unfolding e_def by (rule dbl_lower [OF x])
  finally show ?thesis unfolding x_def T_def .
qed

lemma dbl_sqrt_less_iff:
  assumes "0 \<le> k" "t < 2 ^ 25"
  shows "dbl (sqrt (real_of_int k)) < real_of_int t \<longleftrightarrow> sqrt (real_of_int k) < real_of_int t"
proof
  assume a: "dbl (sqrt (real_of_int k)) < real_of_int t"
  have "0 \<le> dbl (sqrt (real_of_int k))" using assms(1) by (intro dbl_nonneg) simp
  then have t0: "0 \<le> t" using a by simp
  show "sqrt (real_of_int k) < real_of_int t"
  proof (rule ccontr)
    assume "\<not> sqrt (real_of_int k) < real_of_int t"
    then have "dbl (real_of_int t) \<le> dbl (sqrt (real_of_int k))" by (intro dbl_mono) simp
    moreover have "dbl (real_of_int t) = real_of_int t"
      using t0 assms(2) by (intro dbl_of_int) simp
    ultimately show False using a by simp
  qed
next
  assume "sqrt (real_of_int k) < real_of_int t"
  then show "dbl (sqrt (real_of_int k)) < real_of_int t" using dbl_sqrt_less [OF assms] by simp
qed

lemma dbl_sqrt_le_iff:
  assumes "0 \<le> k" "t < 2 ^ 25"
  shows "dbl (sqrt (real_of_int k)) \<le> real_of_int t \<longleftrightarrow> sqrt (real_of_int k) \<le> real_of_int t"
proof
  assume a: "dbl (sqrt (real_of_int k)) \<le> real_of_int t"
  have "0 \<le> dbl (sqrt (real_of_int k))" using assms(1) by (intro dbl_nonneg) simp
  then have t0: "0 \<le> t" using a by simp
  show "sqrt (real_of_int k) \<le> real_of_int t"
    using dbl_sqrt_greater [OF t0 assms(2), of k] a by (auto simp: not_less [symmetric])
next
  assume a: "sqrt (real_of_int k) \<le> real_of_int t"
  have "0 \<le> sqrt (real_of_int k)" using assms(1) by simp
  then have "0 \<le> real_of_int t" using a by linarith
  then have t0: "0 \<le> t" by simp
  have "dbl (sqrt (real_of_int k)) \<le> dbl (real_of_int t)" using a by (rule dbl_mono)
  moreover have "dbl (real_of_int t) = real_of_int t"
    using t0 assms(2) by (intro dbl_of_int) simp
  ultimately show "dbl (sqrt (real_of_int k)) \<le> real_of_int t" by simp
qed

text \<open>
  The comparisons of the code, on the rounded roots: they have the truth value of the
  comparisons on the exact roots that the definitions are written with.
\<close>

lemma rounded_colorDistance_less:
  assumes "t < 2 ^ 25"
  shows "dbl (colorDistance r1 g1 b1 r2 g2 b2) < real_of_int t
     \<longleftrightarrow> colorDistance r1 g1 b1 r2 g2 b2 < real_of_int t"
  unfolding colorDistance_def by (rule dbl_sqrt_less_iff [OF _ assms]) simp

lemma rounded_magnitude_greater:
  assumes "t < 2 ^ 25"
  shows "real_of_int t < dbl (magnitude img x y) \<longleftrightarrow> real_of_int t < magnitude img x y"
proof -
  have "0 \<le> sobelGx img x y * sobelGx img x y + sobelGy img x y * sobelGy img x y" by simp
  from dbl_sqrt_le_iff [OF this assms] show ?thesis
    unfolding magnitude_def by (simp only: not_le [symmetric])
qed

lemma rounded_offsetDistance_le:
  assumes "t < 2 ^ 25"
  shows "dbl (offsetDistance dx dy) \<le> real_of_int t \<longleftrightarrow> offsetDistance dx dy \<le> real_of_int t"
  unfolding offsetDistance_def by (rule dbl_sqrt_le_iff [OF _ assms]) simp


section \<open>The rounded square root of an integer\<close>

lemma isqrt_correct:
  "0 \<le> n \<Longrightarrow> 0 \<le> isqrt n \<and> isqrt n * isqrt n \<le> n \<and> n < (isqrt n + 1) * (isqrt n + 1)"
proof (induction n rule: isqrt.induct)
  case (1 n)
  show ?case
  proof (cases "n < 4")
    case True
    then show ?thesis using 1(2) by (subst (1 2 3 4 5) isqrt.simps) auto
  next
    case False
    let ?s = "isqrt (n div 4)"
    have n: "\<not> n < 1" "\<not> n < 4" using False by simp_all
    have "0 \<le> n div 4" using False by simp
    then have IH: "0 \<le> ?s" "?s * ?s \<le> n div 4" "n div 4 < (?s + 1) * (?s + 1)"
      using 1(1) [OF n] by simp_all
    have lo: "(2 * ?s) * (2 * ?s) \<le> n"
    proof -
      have "4 * (?s * ?s) \<le> 4 * (n div 4)" using IH(2) by simp
      also have "\<dots> \<le> n" by simp
      finally show ?thesis by (simp add: algebra_simps)
    qed
    have hi: "n < (2 * ?s + 2) * (2 * ?s + 2)"
    proof -
      have "n div 4 + 1 \<le> (?s + 1) * (?s + 1)" using IH(3) by simp
      then have "4 * (n div 4) + 4 \<le> 4 * ((?s + 1) * (?s + 1))" by simp
      moreover have "n < 4 * (n div 4) + 4" by simp
      ultimately show ?thesis by (simp add: algebra_simps)
    qed
    have e: "isqrt n = (if (2 * ?s + 1) * (2 * ?s + 1) \<le> n then 2 * ?s + 1 else 2 * ?s)"
      using n by (subst isqrt.simps) (simp add: Let_def)
    show ?thesis
    proof (cases "(2 * ?s + 1) * (2 * ?s + 1) \<le> n")
      case True
      then show ?thesis using e IH(1) hi by (simp add: algebra_simps)
    next
      case False
      then show ?thesis using e IH(1) lo by (simp add: algebra_simps)
    qed
  qed
qed


lemma square_less_iff:
  fixes a b :: real
  assumes "0 \<le> a" "0 \<le> b"
  shows "a * a < b * b \<longleftrightarrow> a < b"
proof
  assume "a * a < b * b"
  then have "a\<^sup>2 < b\<^sup>2" by (simp add: power2_eq_square)
  then show "a < b" using assms(2) by (rule power2_less_imp_less)
next
  assume "a < b"
  then have "a\<^sup>2 < b\<^sup>2" using assms(1) by (intro power_strict_mono) simp_all
  then show "a * a < b * b" by (simp add: power2_eq_square)
qed

lemma square_le_iff:
  fixes a b :: real
  assumes "0 \<le> a" "0 \<le> b"
  shows "a * a \<le> b * b \<longleftrightarrow> a \<le> b"
  using square_less_iff [OF assms(2,1)] by (auto simp: not_less [symmetric])

lemma sqrt_binExp:
  assumes "0 < k"
  shows "binExp (sqrt (real_of_int k)) = (bitlen k - 1) div 2"
proof (rule binExp_unique)
  let ?e = "(bitlen k - 1) div 2"
  note b = bitlen_bounds [OF assms]
  have b1: "1 \<le> bitlen k" using assms by (simp add: bitlen_alt_def)
  then have e: "0 \<le> ?e" by simp
  have e1: "0 \<le> ?e + 1" using e by simp
  have "nat ?e + nat ?e \<le> nat (bitlen k - 1)" using b1 by (simp add: nat_le_iff) 
  then have "(2 :: int) ^ (nat ?e + nat ?e) \<le> 2 ^ nat (bitlen k - 1)" by (intro power_increasing) simp_all
  then have "(2 :: int) ^ (nat ?e + nat ?e) \<le> k" using b by linarith
  then have "real_of_int (2 ^ (nat ?e + nat ?e)) \<le> real_of_int k" by (simp only: of_int_le_iff)
  then have "((2 :: real) ^ nat ?e)\<^sup>2 \<le> real_of_int k"
    by (simp add: power_add power2_eq_square)
  then have "(2 :: real) ^ nat ?e \<le> sqrt (real_of_int k)" by (rule real_le_rsqrt)
  then show "2 powi ?e \<le> sqrt (real_of_int k)" unfolding two_powi_nonneg [OF e] .
  have "nat (bitlen k) \<le> nat (?e + 1) + nat (?e + 1)" using b1 by (simp add: nat_le_iff) 
  then have "(2 :: int) ^ nat (bitlen k) \<le> 2 ^ (nat (?e + 1) + nat (?e + 1))" by (intro power_increasing) simp_all
  then have "k < (2 :: int) ^ (nat (?e + 1) + nat (?e + 1))" using b by linarith
  then have "real_of_int k < real_of_int (2 ^ (nat (?e + 1) + nat (?e + 1)))" by (simp only: of_int_less_iff)
  then have "real_of_int k < ((2 :: real) ^ nat (?e + 1))\<^sup>2"
    by (simp add: power_add power2_eq_square)
  then have "sqrt (real_of_int k) < (2 :: real) ^ nat (?e + 1)" by (intro real_less_lsqrt) simp_all
  then show "sqrt (real_of_int k) < 2 powi (?e + 1)" unfolding two_powi_nonneg [OF e1] .
qed

lemma sqrtDbl_correct:
  assumes "0 \<le> k"
  shows "dbl (sqrt (real_of_int k)) = sqrtDbl k"
proof (cases "k = 0")
  case True
  then show ?thesis by (simp add: dbl_def sqrtDbl_def)
next
  case False
  then have k: "0 < k" using assms by simp
  define u :: real where "u = 2 powi ((bitlen k - 1) div 2 - 52)"
  define x where "x = sqrt (real_of_int k)"
  define t where "t = x / u"
  define q where "q = real_of_int k / (u * u)"
  define f where "f = isqrt \<lfloor>q\<rfloor>"
  define h where "h = (real_of_int f + 1 / 2) * (real_of_int f + 1 / 2)"
  have u: "0 < u" by (simp add: u_def)
  have x: "0 < x" using k by (simp add: x_def)
  have t0: "0 \<le> t" using u x by (simp add: t_def)
  have "x * x = real_of_int k" using k by (simp add: x_def)
  then have tq: "t * t = q" by (simp add: t_def q_def)
  have q0: "0 \<le> q" using k u by (simp add: q_def)
  then have "0 \<le> \<lfloor>q\<rfloor>" by simp
  then have f: "0 \<le> f" "f * f \<le> \<lfloor>q\<rfloor>" "\<lfloor>q\<rfloor> < (f + 1) * (f + 1)"
    using isqrt_correct [of "\<lfloor>q\<rfloor>"] by (simp_all add: f_def)
  have "real_of_int (f * f) \<le> real_of_int \<lfloor>q\<rfloor>" using f(2) by (simp only: of_int_le_iff)
  moreover have "real_of_int \<lfloor>q\<rfloor> \<le> q" by linarith
  ultimately have "real_of_int (f * f) \<le> q" by (rule order_trans)
  then have "real_of_int f * real_of_int f \<le> t * t" unfolding tq by simp
  then have lo: "real_of_int f \<le> t" using f(1) t0 by (simp add: square_le_iff)
  have "\<lfloor>q\<rfloor> + 1 \<le> (f + 1) * (f + 1)" using f(3) by simp
  then have "real_of_int (\<lfloor>q\<rfloor> + 1) \<le> real_of_int ((f + 1) * (f + 1))" by (simp only: of_int_le_iff)
  moreover have "q < real_of_int (\<lfloor>q\<rfloor> + 1)" by linarith
  ultimately have "q < real_of_int ((f + 1) * (f + 1))" by (rule less_le_trans [rotated])
  then have "t * t < (real_of_int f + 1) * (real_of_int f + 1)" unfolding tq by simp
  then have hi: "t < real_of_int f + 1" using f(1) t0 by (simp add: square_less_iff)
  have fl: "\<lfloor>t\<rfloor> = f" using lo hi by (intro floor_unique)
  have half: "0 \<le> real_of_int f + 1 / 2" using f(1) by simp
  have c1: "t - real_of_int f < 1 / 2 \<longleftrightarrow> q < h"
    using square_less_iff [OF t0 half] unfolding tq h_def by auto
  have c2: "1 / 2 < t - real_of_int f \<longleftrightarrow> h < q"
    using square_less_iff [OF half t0] unfolding tq h_def by auto
  have r: "roundEven t = (if q < h then f else if h < q then f + 1 else if even f then f else f + 1)"
    unfolding roundEven_def fl c1 c2 ..
  have "dbl x = real_of_int (roundEven t) * u"
    using x sqrt_binExp [OF k] by (simp add: dbl_def dblPos_def x_def t_def u_def)
  moreover have "sqrtDbl k =
      real_of_int (if q < h then f else if h < q then f + 1 else if even f then f else f + 1) * u"
    unfolding sqrtDbl_def rootAt_def scaledRoot_def roundRoot_def h_def f_def q_def u_def
    using k by simp
  ultimately show ?thesis unfolding x_def r by simp
qed

lemma fadeAlpha_code [code]:
  "fadeAlpha R dx dy =
     \<lfloor>dbl (255 * dbl (1 - dbl (sqrtDbl (dx * dx + dy * dy) / real_of_int R)))\<rfloor>"
proof -
  have "dbl (offsetDistance dx dy) = sqrtDbl (dx * dx + dy * dy)"
    unfolding offsetDistance_def by (rule sqrtDbl_correct) simp
  then show ?thesis by (simp add: fadeAlpha_def)
qed

text \<open>Rules that evaluate the rounding on numerals.\<close>

lemma bitlen_pos: "0 < x \<Longrightarrow> bitlen x = bitlen (x div 2) + 1"
  by (subst compute_bitlen) (simp only: if_True)

lemma bitlen_nonpos: "x \<le> 0 \<Longrightarrow> bitlen x = 0"
  by (subst compute_bitlen) (simp only: not_less [symmetric] if_False)

lemma two_powi_eval: "(2 :: real) powi e = (if 0 \<le> e then 2 ^ nat e else 1 / 2 ^ nat (- e))"
  using two_powi_nonneg [of e] two_powi_neg [of "- e"] by simp

lemmas fade_eval = sqrtDbl_def rootAt_def scaledRoot_def roundRoot_def Let_def isqrt.simps
  dbl_def dblPos_def roundEven_def binExp_def bitlen_pos bitlen_nonpos two_powi_eval

lemma fadeAlpha_sumSquare:
  "fadeAlpha R dx dy = \<lfloor>dbl (255 * dbl (1 - dbl (sqrtDbl k / real_of_int R)))\<rfloor>"
  if "dx * dx + dy * dy = k"
  using that by (simp add: fadeAlpha_code)


section \<open>Row-major loops\<close>

lemma cell_index_eq:
  fixes w :: nat
  assumes "x < w" "i < w"
  shows "y * w + x = j * w + i \<longleftrightarrow> y = j \<and> x = i"
proof
  assume e: "y * w + x = j * w + i"
  have "(y * w + x) div w = y" "(y * w + x) mod w = x" using assms by simp_all
  moreover have "(j * w + i) div w = j" "(j * w + i) mod w = i" using assms by simp_all
  ultimately show "y = j \<and> x = i" using e by metis
qed simp

lemma row_fold_length:
  assumes "\<And>y x a. step y x a = a[y * w + x := F y x (a ! (y * w + x))]"
  shows "length (foldl (\<lambda>a x. step y x a) a xs) = length a"
  by (induction xs arbitrary: a) (simp_all add: assms)

lemma row_fold_nth:
  fixes w :: nat
  assumes step: "\<And>y x a. step y x a = a[y * w + x := F y x (a ! (y * w + x))]"
    and "x1 \<le> w" "i < w" "j * w + i < length a"
  shows "foldl (\<lambda>a x. step y x a) a [x0 ..< x1] ! (j * w + i) =
           (if j = y \<and> x0 \<le> i \<and> i < x1 then F y i (a ! (j * w + i)) else a ! (j * w + i))"
  using \<open>x1 \<le> w\<close>
proof (induction x1)
  case 0
  then show ?case by simp
next
  case (Suc x1)
  show ?case
  proof (cases "x0 \<le> x1")
    case False
    then show ?thesis by auto
  next
    case True
    let ?a = "foldl (\<lambda>a x. step y x a) a [x0 ..< x1]"
    have len: "length ?a = length a" by (rule row_fold_length [OF step])
    have x1: "x1 < w" using Suc.prems by simp
    have IH: "?a ! (j * w + i) =
           (if j = y \<and> x0 \<le> i \<and> i < x1 then F y i (a ! (j * w + i)) else a ! (j * w + i))"
      using Suc by simp
    have unfold: "foldl (\<lambda>a x. step y x a) a [x0 ..< Suc x1] = ?a[y * w + x1 := F y x1 (?a ! (y * w + x1))]"
      using True by (simp add: step)
    show ?thesis
    proof (cases "j = y \<and> i = x1")
      case True
      then show ?thesis using unfold IH len assms(4) \<open>x0 \<le> x1\<close> by simp
    next
      case False
      then have "y * w + x1 \<noteq> j * w + i" using cell_index_eq [OF x1 \<open>i < w\<close>] by auto
      then show ?thesis using unfold IH False by auto
    qed
  qed
qed

lemma grid_fold_length:
  assumes "\<And>y x a. step y x a = a[y * w + x := F y x (a ! (y * w + x))]"
  shows "length (foldl (\<lambda>a y. foldl (\<lambda>a x. step y x a) a xs) a ys) = length a"
  by (induction ys arbitrary: a) (simp_all add: row_fold_length [OF assms])

lemma grid_fold_nth:
  fixes w :: nat
  assumes step: "\<And>y x a. step y x a = a[y * w + x := F y x (a ! (y * w + x))]"
    and "x1 \<le> w" "i < w" "j * w + i < length a"
  shows "foldl (\<lambda>a y. foldl (\<lambda>a x. step y x a) a [x0 ..< x1]) a [y0 ..< y1] ! (j * w + i) =
           (if y0 \<le> j \<and> j < y1 \<and> x0 \<le> i \<and> i < x1 then F j i (a ! (j * w + i)) else a ! (j * w + i))"
proof (induction y1)
  case 0
  then show ?case by simp
next
  case (Suc y1)
  show ?case
  proof (cases "y0 \<le> y1")
    case False
    then show ?thesis by auto
  next
    case True
    let ?a = "foldl (\<lambda>a y. foldl (\<lambda>a x. step y x a) a [x0 ..< x1]) a [y0 ..< y1]"
    have len: "j * w + i < length ?a" using assms(4) by (simp add: grid_fold_length [OF step])
    have "foldl (\<lambda>a y. foldl (\<lambda>a x. step y x a) a [x0 ..< x1]) a [y0 ..< Suc y1] ! (j * w + i)
          = foldl (\<lambda>a x. step y1 x a) ?a [x0 ..< x1] ! (j * w + i)"
      using True by simp
    also have "\<dots> = (if j = y1 \<and> x0 \<le> i \<and> i < x1 then F y1 i (?a ! (j * w + i)) else ?a ! (j * w + i))"
      by (rule row_fold_nth [OF step assms(2,3) len])
    finally show ?thesis using Suc True by auto
  qed
qed

lemma applyAlpha_fold_length:
  "length (foldl (\<lambda>d i. d[i * 4 + 3 := clamp8 (al ! i)]) d xs) = length d"
  by (induction xs arbitrary: d) simp_all

lemma applyAlpha_length: "length (applyAlpha d al) = length d"
  by (simp add: applyAlpha_def applyAlpha_fold_length)

lemma applyAlpha_fold_nth:
  assumes "k < length d"
  shows "foldl (\<lambda>d i. d[i * 4 + 3 := clamp8 (al ! i)]) d [0 ..< n] ! k =
           (if k mod 4 = 3 \<and> k div 4 < n then clamp8 (al ! (k div 4)) else d ! k)"
proof (induction n)
  case 0
  then show ?case by simp
next
  case (Suc n)
  let ?d = "foldl (\<lambda>d i. d[i * 4 + 3 := clamp8 (al ! i)]) d [0 ..< n]"
  have len: "length ?d = length d" by (rule applyAlpha_fold_length)
  show ?case
  proof (cases "k = n * 4 + 3")
    case True
    then have "k mod 4 = 3" "k div 4 = n" by simp_all
    then show ?thesis using True len assms by simp
  next
    case False
    then have "\<not> (k mod 4 = 3 \<and> k div 4 = n)" by presburger
    then show ?thesis using False Suc by (auto simp: less_Suc_eq)
  qed
qed

lemma applyAlpha_nth:
  "k < length d \<Longrightarrow> applyAlpha d al ! k =
      (if k mod 4 = 3 \<and> k div 4 < length al then clamp8 (al ! (k div 4)) else d ! k)"
  by (simp add: applyAlpha_def applyAlpha_fold_nth)

section \<open>Invariants of the feathering pass\<close>

lemma foldl_invariant:
  "P a \<Longrightarrow> (\<And>a x. P a \<Longrightarrow> x \<in> set xs \<Longrightarrow> P (f a x)) \<Longrightarrow> P (foldl f a xs)"
  by (induction xs arbitrary: a) auto

lemma featherAround_invariant:
  assumes "P na" and step: "\<And>dy dx na. P na \<Longrightarrow> P (featherNeighbor raw w R x y dy dx na)"
  shows "P (featherAround raw w R y x na)"
proof -
  have row: "P (foldl (\<lambda>na dx. featherNeighbor raw w R x y dy dx na) na ds)" if "P na" for na dy ds
    using that by (rule foldl_invariant [where P = P]) (rule step)
  have "P (foldl (\<lambda>na dy. foldl (\<lambda>na dx. featherNeighbor raw w R x y dy dx na) na ds) na es)" for ds es
    using \<open>P na\<close> by (rule foldl_invariant [where P = P]) (rule row)
  then show ?thesis using \<open>P na\<close> by (simp add: featherAround_def)
qed

lemma feather_invariant:
  assumes "P raw"
    and step: "\<And>x y dy dx na. 0 < R \<Longrightarrow> P na \<Longrightarrow> P (featherNeighbor raw w R x y dy dx na)"
  shows "P (feather raw w h R)"
proof (cases "0 < R")
  case False
  then show ?thesis using \<open>P raw\<close> by (simp add: feather_def)
next
  case True
  have cell: "P (featherAround raw w R y x na)" if "P na" for na y x
    using that by (rule featherAround_invariant) (rule step [OF True])
  have row: "P (foldl (\<lambda>na x. featherAround raw w R y x na) na xs)" if "P na" for na y xs
    using that by (rule foldl_invariant [where P = P]) (rule cell)
  have "P (foldl (\<lambda>na y. foldl (\<lambda>na x. featherAround raw w R y x na) na xs) raw ys)" for xs ys
    using \<open>P raw\<close> by (rule foldl_invariant [where P = P]) (rule row)
  then show ?thesis using True by (simp add: feather_def)
qed

lemma update_min_le:
  "length na = length raw \<Longrightarrow> \<forall>i<length raw. na ! i \<le> (raw ! i :: int) \<Longrightarrow> i < length raw \<Longrightarrow>
   na[k := min (na ! k) v] ! i \<le> raw ! i"
  by (cases "i = k") (auto simp: min_le_iff_disj)

lemma feather_length: "length (feather raw w h R) = length raw"
  by (rule feather_invariant [where P = "\<lambda>na. length na = length raw"])
     (simp_all add: featherNeighbor_def Let_def)

lemma feather_below: "below raw (feather raw w h R)"
  by (rule feather_invariant [where P = "below raw"])
     (auto simp: below_def featherNeighbor_def Let_def update_min_le)

lemma feather_keeps_nonpositive:
  assumes "i < length raw" "\<not> 0 < raw ! i"
  shows "feather raw w h R ! i = raw ! i"
proof -
  have "length (feather raw w h R) = length raw \<and> feather raw w h R ! i = raw ! i"
    by (rule feather_invariant [where P = "\<lambda>na. length na = length raw \<and> na ! i = raw ! i"])
       (use assms in \<open>auto simp: featherNeighbor_def Let_def isPositiveAt_def nth_list_update\<close>)
  then show ?thesis ..
qed

lemma offsetDistance_le:
  "offsetDistance dx dy \<le> real_of_int R \<longleftrightarrow> 0 \<le> R \<and> dx * dx + dy * dy \<le> R * R"
  unfolding offsetDistance_def by (rule sqrt_le_of_int) simp

lemma fadeAlpha_nonneg:
  assumes "0 < R" "offsetDistance dx dy \<le> real_of_int R"
  shows "0 \<le> fadeAlpha R dx dy"
proof -
  let ?d = "dbl (offsetDistance dx dy)"
  have R: "0 < real_of_int R" using assms(1) by simp
  have "?d \<le> dbl (real_of_int R)" using assms(2) by (rule dbl_mono)
  also have "\<dots> \<le> real_of_int R * (1 + 1 / 2 ^ 53)" by (rule dbl_upper [OF R])
  finally have "?d / real_of_int R \<le> 1 + 1 / 2 ^ 53" using R by (simp add: pos_divide_le_eq mult.commute)
  then have "dbl (?d / real_of_int R) \<le> dbl (1 + 1 / 2 ^ 53)" by (rule dbl_mono)
  then have "0 \<le> 1 - dbl (?d / real_of_int R)" unfolding dbl_just_above_one by simp
  then have "0 \<le> dbl (1 - dbl (?d / real_of_int R))" by (rule dbl_nonneg)
  then have "0 \<le> 255 * dbl (1 - dbl (?d / real_of_int R))" by simp
  then have "0 \<le> dbl (255 * dbl (1 - dbl (?d / real_of_int R)))" by (rule dbl_nonneg)
  then show ?thesis unfolding fadeAlpha_def by simp
qed

lemma feather_nonneg:
  assumes "\<forall>v\<in>set raw. 0 \<le> v"
  shows "\<forall>v\<in>set (feather raw w h R). 0 \<le> v"
proof (rule feather_invariant [where P = "\<lambda>na. \<forall>v\<in>set na. 0 \<le> v"])
  show "\<forall>v\<in>set raw. 0 \<le> v" by (rule assms)
next
  fix x y dy dx :: int and na :: "int list"
  assume R: "0 < R" and na: "\<forall>v\<in>set na. 0 \<le> v"
  show "\<forall>v\<in>set (featherNeighbor raw w R x y dy dx na). 0 \<le> v"
  proof (cases "offsetDistance dx dy \<le> real_of_int R \<and> isPositiveAt raw ((y + dy) * int w + (x + dx))")
    case False
    then show ?thesis using na by (auto simp: featherNeighbor_def Let_def)
  next
    case True
    let ?k = "nat ((y + dy) * int w + (x + dx))"
    have f: "0 \<le> fadeAlpha R dx dy" using fadeAlpha_nonneg R True by simp
    have "set (na[?k := min (na ! ?k) (fadeAlpha R dx dy)]) \<subseteq> insert (min (na ! ?k) (fadeAlpha R dx dy)) (set na)"
      by (rule set_update_subset_insert)
    moreover have "0 \<le> min (na ! ?k) (fadeAlpha R dx dy)" if "?k < length na"
      using that na f by (simp add: min_def)
    moreover have "na[?k := v] = na" if "\<not> ?k < length na" for v
      using that by (simp add: list_update_beyond)
    ultimately show ?thesis using na True unfolding featherNeighbor_def Let_def
      by (cases "?k < length na") auto
  qed
qed

section \<open>The classifier and the edge detector, pixel by pixel\<close>

lemma cell_index_less:
  fixes w :: nat
  assumes "x < w" "y < h"
  shows "y * w + x < w * h"
proof -
  have "y * w + x < y * w + w" using assms by simp
  also have "\<dots> = (Suc y) * w" by simp
  also have "\<dots> \<le> h * w" using assms by (intro mult_le_mono1) simp
  finally show ?thesis by (simp add: mult.commute)
qed

lemma classifyPixel_update:
  "classifyPixel img edges bg tol y x a =
     a[y * width img + x := classifiedAlpha img edges bg tol y x (a ! (y * width img + x))]"
  by (simp add: classifyPixel_def classifiedAlpha_def Let_def)

lemma classify_length: "length (classify img edges bg tol) = width img * height img"
  unfolding classify_def
  using grid_fold_length [where step = "classifyPixel img edges bg tol"
      and F = "classifiedAlpha img edges bg tol" and w = "width img", OF classifyPixel_update]
  by simp

lemma classify_nth:
  assumes "x < width img" "y < height img"
  shows "classify img edges bg tol ! (y * width img + x) =
           (if isBackground bg tol (pixelRGB img (x, y)) \<and> \<not> edges ! (y * width img + x) then 0
            else if isBackground bg tol (pixelRGB img (x, y)) then 76 else 255)"
proof -
  have in_range: "y * width img + x < length (replicate (width img * height img) (255 :: int))"
    using cell_index_less [OF assms] by simp
  note g = grid_fold_nth [where step = "classifyPixel img edges bg tol"
      and F = "classifiedAlpha img edges bg tol", OF classifyPixel_update le_refl assms(1) in_range,
      of 0 0 "height img"]
  show ?thesis
    unfolding classify_def g using assms cell_index_less [OF assms]
    by (simp add: classifiedAlpha_def)
qed

lemma edge_update:
  "edges[y * width img + x := magnitude img x y > real_of_int t] =
     edges[y * width img + x := edgeFlag img t y x (edges ! (y * width img + x))]"
  by (simp add: edgeFlag_def)

lemma detectEdges_length: "length (detectEdges img t) = width img * height img"
  unfolding detectEdges_def
  using grid_fold_length [where step = "\<lambda>y x edges. edges[y * width img + x := magnitude img x y > real_of_int t]"
      and F = "edgeFlag img t" and w = "width img", OF edge_update]
  by simp

lemma detectEdges_nth:
  assumes "x < width img" "y < height img"
  shows "detectEdges img t ! (y * width img + x) \<longleftrightarrow>
           1 \<le> y \<and> y < height img - 1 \<and> 1 \<le> x \<and> x < width img - 1 \<and>
           magnitude img x y > real_of_int t"
proof -
  have in_range: "y * width img + x < length (replicate (width img * height img) False)"
    using cell_index_less [OF assms] by simp
  have le: "width img - 1 \<le> width img" by simp
  note g = grid_fold_nth [where step = "\<lambda>y x edges. edges[y * width img + x := magnitude img x y > real_of_int t]"
      and F = "edgeFlag img t", OF edge_update le assms(1) in_range, of 1 1 "height img - 1"]
  show ?thesis
    unfolding detectEdges_def g using cell_index_less [OF assms]
    by (auto simp: edgeFlag_def)
qed

lemma isBackground_minDistance:
  "isBackground palette tol p \<longleftrightarrow>
     (case minDistance palette p of None \<Rightarrow> False | Some m \<Rightarrow> m < real_of_int tol)"
proof (cases "palette = []")
  case True
  then show ?thesis by (simp add: isBackground_def minDistance_def)
next
  case False
  then have "finite ((\<lambda>c. colorDistance (fst p) (fst (snd p)) (snd (snd p))
                              (fst c) (fst (snd c)) (snd (snd c))) ` set palette)"
    and "(\<lambda>c. colorDistance (fst p) (fst (snd p)) (snd (snd p))
                              (fst c) (fst (snd c)) (snd (snd c))) ` set palette \<noteq> {}"
    by simp_all
  then show ?thesis using False
    by (simp add: isBackground_def minDistance_def list_ex_iff Min_less_iff)
qed

lemma colorDistance_same: "colorDistance r g b r g b = 0"
  by (simp add: colorDistance_def)

lemma red_uniform:
  assumes u: "\<forall>x<width img. \<forall>y<height img. pixelRGB img (x, y) = c"
    and "x < width img" "y < height img"
  shows "red img x y = fst c"
proof -
  have "pixelRGB img (x, y) = c" using u assms(2,3) by blast
  then have "fst (pixelRGB img (x, y)) = fst c" by simp
  then show ?thesis by (simp add: red_def pixelRGB_def Let_def)
qed

lemma magnitude_uniform:
  assumes u: "\<forall>x<width img. \<forall>y<height img. pixelRGB img (x, y) = c"
    and "1 \<le> x" "x < width img - 1" "1 \<le> y" "y < height img - 1"
  shows "magnitude img x y = 0"
proof -
  have r: "red img x' y' = fst c" if "x' \<le> x + 1" "y' \<le> y + 1" for x' y'
    using that assms(3,5) by (intro red_uniform [OF u]) simp_all
  have "sobelGx img x y = 0" "sobelGy img x y = 0"
    by (simp_all add: sobelGx_def sobelGy_def r)
  then show ?thesis by (simp add: magnitude_def)
qed

section \<open>Lengths and ranges of the masks\<close>

lemma cell_of_index:
  fixes w :: nat
  assumes "i < w * h"
  shows "i mod w < w" "i div w < h" "i div w * w + i mod w = i"
proof -
  have "0 < w" using assms by (cases w) simp_all
  then show "i mod w < w" by simp
  show "i div w < h" using assms by (simp add: less_mult_imp_div_less mult.commute)
  show "i div w * w + i mod w = i" by simp
qed

lemma classify_values:
  assumes "i < width img * height img"
  shows "classify img edges bg tol ! i \<in> {0, 76, 255}"
proof -
  note c = cell_of_index [OF assms]
  have "classify img edges bg tol ! (i div width img * width img + i mod width img) \<in> {0, 76, 255}"
    unfolding classify_nth [OF c(1,2)] by simp
  then show ?thesis unfolding c(3) .
qed

lemma rawAlpha_length: "length (rawAlpha s img) = width img * height img"
  by (simp add: rawAlpha_def classify_length)

lemma finalAlpha_length: "length (finalAlpha s img) = width img * height img"
  by (simp add: finalAlpha_def feather_length rawAlpha_length)

lemma rawAlpha_values:
  "i < width img * height img \<Longrightarrow> rawAlpha s img ! i \<in> {0, 76, 255}"
  by (simp only: rawAlpha_def classify_values)

lemma finalAlpha_range:
  assumes "i < width img * height img"
  shows "0 \<le> finalAlpha s img ! i" "finalAlpha s img ! i \<le> 255"
proof -
  let ?raw = "rawAlpha s img"
  have len: "length ?raw = width img * height img" by (rule rawAlpha_length)
  have "\<forall>v\<in>set ?raw. 0 \<le> v"
  proof
    fix v assume "v \<in> set ?raw"
    then obtain k where "k < length ?raw" "v = ?raw ! k" by (auto simp: in_set_conv_nth)
    then show "0 \<le> v" using rawAlpha_values [of k img s] len by auto
  qed
  then have "\<forall>v\<in>set (finalAlpha s img). 0 \<le> v"
    unfolding finalAlpha_def by (rule feather_nonneg)
  then show "0 \<le> finalAlpha s img ! i"
    using assms finalAlpha_length [of s img] by simp
  have "finalAlpha s img ! i \<le> ?raw ! i"
    using feather_below [of ?raw "width img" "height img" "feathering s"] assms len
    by (simp add: below_def finalAlpha_def)
  also have "\<dots> \<le> 255" using rawAlpha_values [OF assms, of s] by auto
  finally show "finalAlpha s img ! i \<le> 255" .
qed

lemma clamp8_uint: "0 \<le> v \<Longrightarrow> v \<le> 255 \<Longrightarrow> uint (clamp8 v) = v"
  by (simp add: clamp8_def uint_word_of_int_eq take_bit_int_eq_self)

lemma removeBackground_bytes:
  assumes "wfImage img" "i < width img * height img"
  shows "data (removeBackground s img) ! (i * 4) = data img ! (i * 4)"
    "data (removeBackground s img) ! (i * 4 + 1) = data img ! (i * 4 + 1)"
    "data (removeBackground s img) ! (i * 4 + 2) = data img ! (i * 4 + 2)"
    "uint (data (removeBackground s img) ! (i * 4 + 3)) = finalAlpha s img ! i"
proof -
  have len: "length (data img) = 4 * (width img * height img)"
    using assms(1) by (simp add: wfImage_def)
  have k: "i * 4 < length (data img)" "i * 4 + 1 < length (data img)"
    "i * 4 + 2 < length (data img)" "i * 4 + 3 < length (data img)"
    using assms(2) len by simp_all
  have m: "(i * 4) mod 4 = 0" "(i * 4 + 1) mod 4 = 1" "(i * 4 + 2) mod 4 = 2"
    "(i * 4 + 3) mod 4 = 3" "(i * 4 + 3) div 4 = i"
    by presburger+
  have a: "uint (clamp8 (finalAlpha s img ! i)) = finalAlpha s img ! i"
    using finalAlpha_range [OF assms(2), of s] by (rule clamp8_uint)
  have d0: "applyAlpha (data img) (finalAlpha s img) ! (i * 4) = data img ! (i * 4)"
    unfolding applyAlpha_nth [OF k(1)] m by simp
  have d1: "applyAlpha (data img) (finalAlpha s img) ! (i * 4 + 1) = data img ! (i * 4 + 1)"
    unfolding applyAlpha_nth [OF k(2)] m by simp
  have d2: "applyAlpha (data img) (finalAlpha s img) ! (i * 4 + 2) = data img ! (i * 4 + 2)"
    unfolding applyAlpha_nth [OF k(3)] m by simp
  show "data (removeBackground s img) ! (i * 4) = data img ! (i * 4)"
    using d0 by (simp add: removeBackground_def)
  show "data (removeBackground s img) ! (i * 4 + 1) = data img ! (i * 4 + 1)"
    using d1 by (simp add: removeBackground_def)
  show "data (removeBackground s img) ! (i * 4 + 2) = data img ! (i * 4 + 2)"
    using d2 by (simp add: removeBackground_def)
  have "applyAlpha (data img) (finalAlpha s img) ! (i * 4 + 3) = clamp8 (finalAlpha s img ! i)"
    unfolding applyAlpha_nth [OF k(4)] m using assms(2) by (simp add: finalAlpha_length)
  then show "uint (data (removeBackground s img) ! (i * 4 + 3)) = finalAlpha s img ! i"
    using a by (simp add: removeBackground_def)
qed

section \<open>The sampled colours and their clusters\<close>

lemma findSimilar_None:
  "findSimilar p cs = None \<longleftrightarrow> \<not> list_ex (near p) (map fst cs)"
  by (induction cs) (auto simp: near_def split: if_splits)

lemma findSimilar_Some:
  "findSimilar p cs = Some cs' \<Longrightarrow> map fst cs' = map fst cs \<and> list_ex (near p) (map fst cs)"
  by (induction cs arbitrary: cs') (auto simp: near_def split: if_splits)

lemma map_fst_tally:
  "map fst (tally cs p) =
     (if list_ex (near p) (map fst cs) then map fst cs else map fst cs @ [p])"
proof (cases "findSimilar p cs")
  case None
  then show ?thesis using findSimilar_None [of p cs] by (simp add: tally_def)
next
  case (Some cs')
  then show ?thesis using findSimilar_Some [OF Some] by (simp add: tally_def)
qed

lemma map_fst_foldl_tally:
  "map fst (foldl tally cs ps) =
     foldl (\<lambda>reps p. if list_ex (near p) reps then reps else reps @ [p]) (map fst cs) ps"
  by (induction ps arbitrary: cs) (simp_all add: map_fst_tally)

lemma colorCounts_clusterReps: "map fst (colorCounts img) = clusterReps (sampledColors img)"
  using map_fst_foldl_tally [of "[]"] by (simp add: colorCounts_def clusterReps_def)

lemma getBackgroundColors_length:
  "length (getBackgroundColors img) = min 3 (length (clusterReps (sampledColors img)))"
proof -
  have "length (clusterReps (sampledColors img)) = length (colorCounts img)"
    by (simp add: colorCounts_clusterReps [symmetric])
  then show ?thesis by (simp add: getBackgroundColors_def min.commute)
qed

lemma stride5_set: "set (stride5 v n) \<subseteq> {v ..< n}"
proof (induction v n rule: stride5.induct)
  case (1 v n)
  show ?case
  proof (cases "v < n")
    case True
    then have "set (stride5 v n) = insert v (set (stride5 (v + 5) n))"
      by (subst stride5.simps) simp
    then show ?thesis using 1 True by auto
  next
    case False
    then have "stride5 v n = []" by (subst stride5.simps) simp
    then show ?thesis by simp
  qed
qed

lemma stride5_nonempty: "0 < n \<Longrightarrow> stride5 0 n \<noteq> []"
  by (subst stride5.simps) simp

lemma samplePixels_border:
  assumes "0 < w" "0 < h" "p \<in> set (samplePixels w h)"
  shows "fst p < w \<and> snd p < h \<and> (fst p = 0 \<or> snd p = 0 \<or> fst p = w - 1 \<or> snd p = h - 1)"
  using assms stride5_set [of 0 w] stride5_set [of 0 h]
  by (auto simp: samplePixels_def)

lemma samplePixels_nonempty: "0 < w \<Longrightarrow> samplePixels w h \<noteq> []"
  using stride5_nonempty [of w] by (cases "stride5 0 w") (simp_all add: samplePixels_def)

lemma near_same: "near c c"
  by (simp add: near_def colorDistance_same)

lemma tally_same: "tally [(c, n)] c = [(c, n + 1)]"
  using near_same [of c] by (simp add: tally_def near_def)

lemma foldl_tally_same:
  "\<forall>p\<in>set ps. p = c \<Longrightarrow> foldl tally [(c, n)] ps = [(c, n + int (length ps))]"
  by (induction ps arbitrary: n) (simp_all add: tally_same)

lemma colorCounts_uniform:
  assumes "sampledColors img \<noteq> []" "\<forall>p\<in>set (sampledColors img). p = c"
  shows "colorCounts img = [(c, int (length (sampledColors img)))]"
proof (cases "sampledColors img")
  case Nil
  then show ?thesis using assms by simp
next
  case (Cons p ps)
  then have "p = c" "\<forall>p\<in>set ps. p = c" using assms(2) by simp_all
  then show ?thesis
    using foldl_tally_same [of ps c 1] Cons by (simp add: colorCounts_def tally_def)
qed

lemma uniform_border_palette:
  assumes a: "0 < width img \<and> 0 < height img \<and>
        (\<forall>x<width img. \<forall>y<height img.
            x = 0 \<or> y = 0 \<or> x = width img - 1 \<or> y = height img - 1 \<longrightarrow> pixelRGB img (x, y) = c)"
  shows "clusterReps (sampledColors img) = [c]" "getBackgroundColors img = [c]"
proof -
  have ne: "sampledColors img \<noteq> []"
    using a samplePixels_nonempty [of "width img" "height img"] by (simp add: sampledColors_def)
  have all: "\<forall>p\<in>set (sampledColors img). p = c"
  proof
    fix p assume "p \<in> set (sampledColors img)"
    then obtain q where q: "q \<in> set (samplePixels (width img) (height img))" "p = pixelRGB img q"
      by (auto simp: sampledColors_def)
    have "fst q < width img \<and> snd q < height img \<and>
      (fst q = 0 \<or> snd q = 0 \<or> fst q = width img - 1 \<or> snd q = height img - 1)"
      using a q(1) by (intro samplePixels_border) simp_all
    then have "pixelRGB img (fst q, snd q) = c" using a by blast
    then show "p = c" using q(2) by simp
  qed
  have cc: "colorCounts img = [(c, int (length (sampledColors img)))]"
    by (rule colorCounts_uniform [OF ne all])
  show "clusterReps (sampledColors img) = [c]"
    using cc by (simp add: colorCounts_clusterReps [symmetric])
  show "getBackgroundColors img = [c]"
    by (simp add: getBackgroundColors_def cc)
qed

section \<open>The order of the clusters and of the palette\<close>

lemma clusterReps_snoc:
  "clusterReps (S @ [p]) =
     (if list_ex (near p) (clusterReps S) then clusterReps S else clusterReps S @ [p])"
  by (simp add: clusterReps_def)

lemma clusterReps_covers: "q \<in> set S \<Longrightarrow> list_ex (near q) (clusterReps S)"
proof (induction S rule: rev_induct)
  case Nil
  then show ?case by simp
next
  case (snoc p S)
  show ?case
  proof (cases "q = p")
    case True
    then show ?thesis using near_same [of p] by (auto simp: clusterReps_snoc list_ex_iff)
  next
    case False
    then have "list_ex (near q) (clusterReps S)" using snoc by simp
    then show ?thesis by (auto simp: clusterReps_snoc list_ex_iff)
  qed
qed

lemma clusterReps_subset: "set (clusterReps S) \<subseteq> set S"
  by (induction S rule: rev_induct) (auto simp: clusterReps_snoc clusterReps_def)

lemma clusterReps_distinct: "distinct (clusterReps S)"
proof (induction S rule: rev_induct)
  case Nil
  then show ?case by (simp add: clusterReps_def)
next
  case (snoc p S)
  then show ?case using near_same [of p] by (auto simp: clusterReps_snoc list_ex_iff)
qed

lemma find_append_found: "list_ex P R \<Longrightarrow> find P (R @ T) = find P R"
  by (induction R) auto

lemma find_append_new: "\<not> list_ex P R \<Longrightarrow> P p \<Longrightarrow> find P (R @ [p]) = Some p"
  by (induction R) auto

lemma find_in_set: "find P R = Some c \<Longrightarrow> c \<in> set R \<and> P c"
  by (induction R) (auto split: if_splits)

lemma clusterOf_grows:
  assumes "q \<in> set S"
  shows "clusterOf (S @ [p]) q = clusterOf S q"
  using clusterReps_covers [OF assms]
  by (simp add: clusterOf_def clusterReps_snoc find_append_found)

lemma clusterOf_last:
  "clusterOf (S @ [p]) p =
     (if list_ex (near p) (clusterReps S) then find (near p) (clusterReps S) else Some p)"
  using near_same [of p] by (simp add: clusterOf_def clusterReps_snoc find_append_new)

lemma clusterCount_snoc:
  "clusterCount (S @ [p]) c =
     clusterCount S c + (if clusterOf (S @ [p]) p = Some c then 1 else 0)"
proof -
  have "filter (\<lambda>q. clusterOf (S @ [p]) q = Some c) S = filter (\<lambda>q. clusterOf S q = Some c) S"
    by (rule filter_cong) (simp_all add: clusterOf_grows)
  then show ?thesis by (simp add: clusterCount_def)
qed

lemma findSimilar_counted:
  assumes "distinct R"
  shows "findSimilar p (map (\<lambda>c. (c, f c)) R) =
     (if list_ex (near p) R
      then Some (map (\<lambda>c. (c, if find (near p) R = Some c then f c + 1 else f c)) R)
      else None)"
  using assms
proof (induction R)
  case Nil
  then show ?case by simp
next
  case (Cons a R)
  show ?case
  proof (cases "near p a")
    case True
    have "map (\<lambda>c. (c, if Some a = Some c then f c + 1 else f c)) R = map (\<lambda>c. (c, f c)) R"
      using Cons.prems by (intro map_cong) auto
    then show ?thesis using True by (simp add: near_def [symmetric])
  next
    case False
    have a: "find (near p) R \<noteq> Some a" using False find_in_set [of "near p" R a] by blast
    show ?thesis using False Cons a by (simp add: near_def [symmetric])
  qed
qed

lemma foldl_tally_counts:
  "foldl tally [] S = map (\<lambda>c. (c, clusterCount S c)) (clusterReps S)"
proof (induction S rule: rev_induct)
  case Nil
  then show ?case by (simp add: clusterReps_def)
next
  case (snoc p S)
  let ?R = "clusterReps S"
  have t: "foldl tally [] (S @ [p]) = tally (map (\<lambda>c. (c, clusterCount S c)) ?R) p"
    using snoc by simp
  show ?case
  proof (cases "list_ex (near p) ?R")
    case True
    have "tally (map (\<lambda>c. (c, clusterCount S c)) ?R) p =
        map (\<lambda>c. (c, if find (near p) ?R = Some c then clusterCount S c + 1 else clusterCount S c)) ?R"
      using True by (simp add: tally_def findSimilar_counted [OF clusterReps_distinct])
    also have "\<dots> = map (\<lambda>c. (c, clusterCount (S @ [p]) c)) ?R"
      using True by (intro map_cong) (simp_all add: clusterCount_snoc clusterOf_last)
    finally show ?thesis using True unfolding t by (simp add: clusterReps_snoc)
  next
    case False
    have new: "p \<notin> set ?R" using False near_same [of p] by (auto simp: list_ex_iff)
    have one: "clusterCount (S @ [p]) p = 1"
    proof -
      have "filter (\<lambda>q. clusterOf S q = Some p) S = []"
        using new find_in_set [of _ ?R p] by (auto simp: filter_empty_conv clusterOf_def)
      then have "clusterCount S p = 0" by (simp add: clusterCount_def)
      then show ?thesis using False by (simp add: clusterCount_snoc clusterOf_last)
    qed
    have eq: "map (\<lambda>c. (c, clusterCount S c)) ?R = map (\<lambda>c. (c, clusterCount (S @ [p]) c)) ?R"
      using False new by (intro map_cong) (auto simp: clusterCount_snoc clusterOf_last)
    have "tally (map (\<lambda>c. (c, clusterCount S c)) ?R) p =
        map (\<lambda>c. (c, clusterCount S c)) ?R @ [(p, 1)]"
      using False by (simp add: tally_def findSimilar_counted [OF clusterReps_distinct])
    also have "\<dots> = map (\<lambda>c. (c, clusterCount (S @ [p]) c)) ?R @ [(p, 1)]"
      by (simp only: eq)
    also have "\<dots> =
        map (\<lambda>c. (c, clusterCount (S @ [p]) c)) (clusterReps (S @ [p]))"
      using False by (simp add: clusterReps_snoc one)
    finally show ?thesis unfolding t .
  qed
qed

lemma firstIndex_less: "c \<in> set S \<Longrightarrow> firstIndex S c < length S"
  unfolding firstIndex_def by (induction S) auto

lemma firstIndex_old: "c \<in> set S \<Longrightarrow> firstIndex (S @ T) c = firstIndex S c"
  unfolding firstIndex_def by (simp add: takeWhile_append1)

lemma firstIndex_new: "p \<notin> set S \<Longrightarrow> firstIndex (S @ [p]) p = length S"
  unfolding firstIndex_def by (subst takeWhile_append2) auto

lemma clusterReps_first_seen:
  "sorted_wrt (<) (map (firstIndex S) (clusterReps S))"
proof (induction S rule: rev_induct)
  case Nil
  then show ?case by (simp add: clusterReps_def)
next
  case (snoc p S)
  let ?R = "clusterReps S"
  have old: "map (firstIndex (S @ [p])) ?R = map (firstIndex S) ?R"
    using clusterReps_subset [of S] by (intro map_cong) (auto simp: firstIndex_old)
  show ?case
  proof (cases "list_ex (near p) ?R")
    case True
    then have "clusterReps (S @ [p]) = ?R" by (simp add: clusterReps_snoc)
    then show ?thesis unfolding old using snoc by (simp add: old)
  next
    case False
    then have "p \<notin> set S" using clusterReps_covers [of p S] by blast
    then have "firstIndex (S @ [p]) p = length S" by (rule firstIndex_new)
    moreover have "\<forall>c\<in>set ?R. firstIndex S c < length S"
      using clusterReps_subset [of S] firstIndex_less by blast
    ultimately have "sorted_wrt (<) (map (firstIndex S) ?R @ [firstIndex (S @ [p]) p])"
      using snoc by (simp add: sorted_wrt_append)
    then show ?thesis using False by (simp add: clusterReps_snoc old)
  qed
qed

lemma insort_key_secondary:
  fixes f :: "'a \<Rightarrow> int" and g :: "'a \<Rightarrow> nat"
  assumes "\<forall>y\<in>set ys. g x < g y"
  shows "insort_key f x ys = insort_key (\<lambda>x. (f x, g x)) x ys"
  using assms by (induction ys) auto

lemma sort_key_secondary:
  fixes f :: "'a \<Rightarrow> int" and g :: "'a \<Rightarrow> nat"
  assumes "sorted_wrt (<) (map g xs)"
  shows "sort_key f xs = sort_key (\<lambda>x. (f x, g x)) xs"
  using assms
proof (induction xs)
  case Nil
  then show ?case by simp
next
  case (Cons x xs)
  then have eq: "sort_key f xs = sort_key (\<lambda>x. (f x, g x)) xs" by (simp add: sorted_wrt_map)
  have "\<forall>y\<in>set (sort_key f xs). g x < g y" using Cons.prems by (simp add: sorted_wrt_map)
  then have "insort_key f x (sort_key f xs) = insort_key (\<lambda>x. (f x, g x)) x (sort_key f xs)"
    by (rule insort_key_secondary)
  also have "\<dots> = insort_key (\<lambda>x. (f x, g x)) x (sort_key (\<lambda>x. (f x, g x)) xs)"
    by (simp only: eq)
  finally show ?case by simp
qed

lemma sort_key_strict:
  fixes f :: "'a \<Rightarrow> int" and g :: "'a \<Rightarrow> nat"
  assumes d: "distinct (map g xs)" and ij: "i < j" "j < length xs"
  defines "ys \<equiv> sort_key (\<lambda>x. (f x, g x)) xs"
  shows "f (ys ! i) < f (ys ! j) \<or> f (ys ! i) = f (ys ! j) \<and> g (ys ! i) < g (ys ! j)"
proof -
  have len: "length ys = length xs" by (simp add: ys_def)
  have "sorted (map (\<lambda>x. (f x, g x)) ys)" unfolding ys_def by (rule sorted_sort_key)
  then have "map (\<lambda>x. (f x, g x)) ys ! i \<le> map (\<lambda>x. (f x, g x)) ys ! j"
    using ij len by (intro sorted_nth_mono) simp_all
  then have le: "(f (ys ! i), g (ys ! i)) \<le> (f (ys ! j), g (ys ! j))" using ij len by simp
  have dist: "distinct (map g ys)" using d by (simp add: ys_def distinct_map)
  have "map g ys ! i \<noteq> map g ys ! j"
    using nth_eq_iff_index_eq [OF dist, of i j] ij len by simp
  then have "g (ys ! i) \<noteq> g (ys ! j)" using ij len by simp
  then show ?thesis using le by auto
qed

lemma podium_samples:
  "sampledColors podiumImage =
     [(0, 0, 255), (0, 0, 255), (0, 255, 0), (0, 255, 0), (255, 0, 0), (255, 0, 0),
      (0, 0, 255), (255, 0, 0)]"
  by code_simp

lemma podium_palette:
  "getBackgroundColors podiumImage = [(0, 0, 255), (255, 0, 0), (0, 255, 0)]"
  by code_simp

lemma podium_clusters:
  "clusterCount (sampledColors podiumImage) (0, 0, 255) = 3"
  "clusterCount (sampledColors podiumImage) (0, 255, 0) = 2"
  "clusterCount (sampledColors podiumImage) (255, 0, 0) = 3"
  "firstIndex (sampledColors podiumImage) (0, 0, 255) = 0"
  "firstIndex (sampledColors podiumImage) (0, 255, 0) = 2"
  "firstIndex (sampledColors podiumImage) (255, 0, 0) = 4"
  unfolding podium_samples by code_simp+


section \<open>The ring raster\<close>

lemma concat_chunks_length:
  "\<forall>xs\<in>set xss. length xs = n \<Longrightarrow> length (concat xss) = length xss * n"
  by (induction xss) simp_all

lemma concat_chunks_nth:
  "\<forall>xs\<in>set xss. length xs = n \<Longrightarrow> i < length xss \<Longrightarrow> j < n \<Longrightarrow>
   concat xss ! (i * n + j) = xss ! i ! j"
proof (induction xss arbitrary: i)
  case Nil
  then show ?case by simp
next
  case (Cons xs xss)
  show ?case
  proof (cases i)
    case 0
    then show ?thesis using Cons.prems by (simp add: nth_append)
  next
    case (Suc k)
    then have "concat (xs # xss) ! (i * n + j) = concat xss ! (k * n + j)"
      using Cons.prems by (simp add: nth_append)
    then show ?thesis using Cons Suc by simp
  qed
qed

lemma ringPixel_length: "length (ringPixel i) = 4"
  by (simp add: ringPixel_def)

lemma ringImage_dims: "width ringImage = 10" "height ringImage = 10"
  by (simp_all add: ringImage_def)

lemma ringImage_wf: "wfImage ringImage"
  using concat_chunks_length [of "map ringPixel [0 ..< 100]" 4]
  by (simp add: wfImage_def ringImage_def ringPixel_length)

lemma ringImage_byte:
  assumes "x < 10" "y < 10" "j < 4"
  shows "data ringImage ! ((y * 10 + x) * 4 + j) = ringPixel (y * 10 + x) ! j"
proof -
  have "y * 10 + x < 100" using assms by simp
  then show ?thesis
    using concat_chunks_nth [of "map ringPixel [0 ..< 100]" 4 "y * 10 + x" j] assms(3)
    by (simp add: ringImage_def ringPixel_length)
qed

lemma ringImage_pixelRGB:
  assumes "x < 10" "y < 10"
  shows "pixelRGB ringImage (x, y) = (if onRing x y then (0, 0, 255) else (255, 0, 0))"
proof -
  have c: "(y * 10 + x) mod 10 = x" "(y * 10 + x) div 10 = y" using assms by simp_all
  have rp: "ringPixel (y * 10 + x) =
      (if onRing x y then [0, 0, 255, 255] else [255, 0, 0, 255])"
    unfolding ringPixel_def c ..
  have b0: "data ringImage ! ((y * 10 + x) * 4) = (if onRing x y then 0 else 255)"
    using ringImage_byte [OF assms, of 0] unfolding rp by simp
  have b1: "data ringImage ! ((y * 10 + x) * 4 + 1) = 0"
    using ringImage_byte [OF assms, of 1] unfolding rp by simp
  have b2: "data ringImage ! ((y * 10 + x) * 4 + 2) = (if onRing x y then 255 else 0)"
    using ringImage_byte [OF assms, of 2] unfolding rp by simp
  show ?thesis
    unfolding pixelRGB_def Let_def byteAt_def ringImage_dims fst_conv snd_conv b0 b1 b2
    by simp
qed

lemma ringImage_palette: "getBackgroundColors ringImage = [(0, 0, 255)]"
proof (rule uniform_border_palette(2))
  show "0 < width ringImage \<and> 0 < height ringImage \<and>
    (\<forall>x<width ringImage. \<forall>y<height ringImage.
        x = 0 \<or> y = 0 \<or> x = width ringImage - 1 \<or> y = height ringImage - 1 \<longrightarrow>
        pixelRGB ringImage (x, y) = (0, 0, 255))"
    by (auto simp: ringImage_dims ringImage_pixelRGB onRing_def)
qed

lemma blue_is_background: "isBackground [(0, 0, 255)] 30 (0, 0, 255)"
  by (simp add: isBackground_code sumSquares_def)

lemma red_is_not_background: "\<not> isBackground [(0, 0, 255)] 30 (255, 0, 0)"
  by (simp add: isBackground_code sumSquares_def)

lemma ringImage_rawAlpha:
  assumes "x < 10" "y < 10"
  shows "rawAlpha ringSettings ringImage ! (y * 10 + x) =
           (if onRing x y \<and> \<not> detectEdges ringImage 10 ! (y * 10 + x) then 0
            else if onRing x y then 76 else 255)"
  using classify_nth [of x ringImage y "detectEdges ringImage 10" "[(0, 0, 255)]" 30] assms
  by (simp add: rawAlpha_def ringSettings_def ringImage_palette ringImage_dims
        ringImage_pixelRGB blue_is_background red_is_not_background)

lemma ringImage_border_edges:
  assumes "x < 10" "y < 10" "onRing x y"
  shows "\<not> detectEdges ringImage 10 ! (y * 10 + x)"
  using detectEdges_nth [of x ringImage y 10] assms
  by (auto simp: ringImage_dims onRing_def)

section \<open>The feathered value as a minimum of candidates\<close>

lemma foldl_concat_map:
  "foldl (\<lambda>a y. foldl f a (g y)) a ys = foldl f a (concat (map g ys))"
  by (induction ys arbitrary: a) simp_all

lemma featherNeighbor_writes:
  "featherNeighbor raw w R x y dy dx na = foldl lowerAt na (neighborWrites raw w R x y dy dx)"
  by (simp add: featherNeighbor_def neighborWrites_def lowerAt_def Let_def)

lemma featherAround_writes:
  "featherAround raw w R y x na = foldl lowerAt na (aroundWrites raw w R y x)"
  by (simp add: featherAround_def aroundWrites_def featherNeighbor_writes foldl_concat_map)

lemma feather_writes:
  "0 < R \<Longrightarrow> feather raw w h R = foldl lowerAt raw (featherWrites raw w h R)"
  by (simp add: feather_def featherWrites_def featherAround_writes foldl_concat_map)

lemma foldl_lowerAt_nth:
  "k < length a \<Longrightarrow>
   foldl lowerAt a ws ! k = fold min (map snd (filter (\<lambda>kv. fst kv = k) ws)) (a ! k)"
proof (induction ws arbitrary: a)
  case Nil
  then show ?case by simp
next
  case (Cons kv ws)
  have len: "k < length (lowerAt a kv)" using Cons.prems by (simp add: lowerAt_def)
  have "lowerAt a kv ! k = (if fst kv = k then min (snd kv) (a ! k) else a ! k)"
    using Cons.prems by (simp add: lowerAt_def min.commute)
  then show ?case using Cons.IH [OF len] by simp
qed

lemma fold_min_Min: "fold min vs (x :: int) = Min (insert x (set vs))"
  using Min.set_eq_fold [of x vs] by simp

lemma foldl_lowerAt_Min:
  assumes "k < length a"
  shows "foldl lowerAt a ws ! k = Min (insert (a ! k) {v. (k, v) \<in> set ws})"
proof -
  have "set (map snd (filter (\<lambda>kv. fst kv = k) ws)) = {v. (k, v) \<in> set ws}"
    by force
  then show ?thesis by (simp add: foldl_lowerAt_nth [OF assms] fold_min_Min)
qed

lemma set_neighborWrites:
  "(k, v) \<in> set (neighborWrites raw w R x y dy dx) \<longleftrightarrow>
     offsetDistance dx dy \<le> real_of_int R \<and>
     isPositiveAt raw ((y + dy) * int w + (x + dx)) \<and>
     k = nat ((y + dy) * int w + (x + dx)) \<and> v = fadeAlpha R dx dy"
  by (auto simp: neighborWrites_def)

lemma set_aroundWrites:
  "(k, v) \<in> set (aroundWrites raw w R y x) \<longleftrightarrow>
     isZeroAt raw (y * int w + x) \<and>
     (\<exists>dy dx. - R \<le> dy \<and> dy \<le> R \<and> - R \<le> dx \<and> dx \<le> R \<and>
        (k, v) \<in> set (neighborWrites raw w R x y dy dx))"
proof (cases "isZeroAt raw (y * int w + x)")
  case False
  then show ?thesis by (simp add: aroundWrites_def)
next
  case True
  have "(k, v) \<in> set (aroundWrites raw w R y x) \<longleftrightarrow>
      (\<exists>dy\<in>{- R .. R}. \<exists>dx\<in>{- R .. R}. (k, v) \<in> set (neighborWrites raw w R x y dy dx))"
    using True by (simp add: aroundWrites_def)
  also have "\<dots> \<longleftrightarrow> (\<exists>dy dx. - R \<le> dy \<and> dy \<le> R \<and> - R \<le> dx \<and> dx \<le> R \<and>
        (k, v) \<in> set (neighborWrites raw w R x y dy dx))"
    by (auto simp: Bex_def)
  finally show ?thesis using True by simp
qed

lemma set_featherWrites:
  "(k, v) \<in> set (featherWrites raw w h R) \<longleftrightarrow>
     (\<exists>y x. R \<le> y \<and> y \<le> int h - R - 1 \<and> R \<le> x \<and> x \<le> int w - R - 1 \<and>
        (k, v) \<in> set (aroundWrites raw w R y x))"
proof -
  have "(k, v) \<in> set (featherWrites raw w h R) \<longleftrightarrow>
      (\<exists>y\<in>{R .. int h - R - 1}. \<exists>x\<in>{R .. int w - R - 1}. (k, v) \<in> set (aroundWrites raw w R y x))"
    by (simp add: featherWrites_def)
  also have "\<dots> \<longleftrightarrow> (\<exists>y x. R \<le> y \<and> y \<le> int h - R - 1 \<and> R \<le> x \<and> x \<le> int w - R - 1 \<and>
        (k, v) \<in> set (aroundWrites raw w R y x))"
    by (auto simp: Bex_def)
  finally show ?thesis .
qed

lemma int_cell_index_eq:
  fixes w :: nat and a b y y' :: int
  assumes "0 \<le> a" "a < int w" "0 \<le> b" "b < int w" "y * int w + a = y' * int w + b"
  shows "y = y' \<and> a = b"
proof -
  have "(y * int w + a) div int w = y" "(y * int w + a) mod int w = a"
    using assms(1,2) by simp_all
  moreover have "(y' * int w + b) div int w = y'" "(y' * int w + b) mod int w = b"
    using assms(3,4) by simp_all
  ultimately show ?thesis using assms(5) by metis
qed

lemma offsetDistance_bounds:
  assumes "offsetDistance dx dy \<le> real_of_int R"
  shows "- R \<le> dx \<and> dx \<le> R \<and> - R \<le> dy \<and> dy \<le> R"
proof -
  have R: "0 \<le> R" and le: "dx * dx + dy * dy \<le> R * R"
    using assms by (simp_all add: offsetDistance_le)
  have "dx\<^sup>2 \<le> R\<^sup>2" "dy\<^sup>2 \<le> R\<^sup>2"
    using le by (simp_all add: power2_eq_square) (smt (verit) zero_le_square)+
  then have "\<bar>dx\<bar> \<le> \<bar>R\<bar>" "\<bar>dy\<bar> \<le> \<bar>R\<bar>" by (simp_all add: abs_le_square_iff)
  then show ?thesis using R by auto
qed

lemma writes_at_pixel:
  assumes len: "length raw = w * h" and p: "px < w" "py < h"
  shows "{v. (py * w + px, v) \<in> set (featherWrites raw w h R)} =
           (if 0 < raw ! (py * w + px) then candidates raw w h R px py else {})"
proof -
  let ?k = "py * w + px"
  have k: "?k < length raw" using cell_index_less [OF p] len by simp
  have pos: "isPositiveAt raw (int py * int w + int px) \<longleftrightarrow> 0 < raw ! ?k"
    using k by (simp add: isPositiveAt_def nat_add_distrib nat_mult_distrib)
  have sub: "v \<in> candidates raw w h R px py \<and> 0 < raw ! ?k"
    if "(?k, v) \<in> set (featherWrites raw w h R)" for v
  proof -
    from that obtain y x dy dx where yx: "R \<le> y" "y \<le> int h - R - 1" "R \<le> x" "x \<le> int w - R - 1"
      and z: "isZeroAt raw (y * int w + x)"
      and d: "- R \<le> dy" "dy \<le> R" "- R \<le> dx" "dx \<le> R"
      and dist: "offsetDistance dx dy \<le> real_of_int R"
      and ip: "isPositiveAt raw ((y + dy) * int w + (x + dx))"
      and kk: "?k = nat ((y + dy) * int w + (x + dx))" and v: "v = fadeAlpha R dx dy"
      unfolding set_featherWrites set_aroundWrites set_neighborWrites by blast
    have "0 \<le> (y + dy) * int w + (x + dx)" using ip by (simp add: isPositiveAt_def)
    then have "int (nat ((y + dy) * int w + (x + dx))) = (y + dy) * int w + (x + dx)" by simp
    then have e: "(y + dy) * int w + (x + dx) = int py * int w + int px"
      unfolding kk [symmetric] by simp
    have "y + dy = int py \<and> x + dx = int px"
      using yx d p by (intro int_cell_index_eq [OF _ _ _ _ e]) simp_all
    then have dd: "dx = int px - x" "dy = int py - y" by simp_all
    have "isSource raw w h R x y" using yx z by (simp add: isSource_def)
    then have "v \<in> candidates raw w h R px py"
      using dist v unfolding candidates_def dd by blast
    moreover have "0 < raw ! ?k" using ip pos unfolding e by simp
    ultimately show ?thesis by simp
  qed
  have sup: "(?k, v) \<in> set (featherWrites raw w h R)"
    if "v \<in> candidates raw w h R px py" "0 < raw ! ?k" for v
  proof -
    from that(1) obtain sx sy where s: "isSource raw w h R sx sy"
      and dist: "offsetDistance (int px - sx) (int py - sy) \<le> real_of_int R"
      and v: "v = fadeAlpha R (int px - sx) (int py - sy)"
      unfolding candidates_def by blast
    note b = offsetDistance_bounds [OF dist]
    have t: "(sy + (int py - sy)) * int w + (sx + (int px - sx)) = int py * int w + int px" by simp
    have ip: "isPositiveAt raw ((sy + (int py - sy)) * int w + (sx + (int px - sx)))"
      unfolding t pos by (rule that(2))
    have kk: "?k = nat ((sy + (int py - sy)) * int w + (sx + (int px - sx)))"
      unfolding t by (simp add: nat_add_distrib nat_mult_distrib)
    have n: "(?k, v) \<in> set (neighborWrites raw w R sx sy (int py - sy) (int px - sx))"
      unfolding set_neighborWrites using dist ip kk v by blast
    have z: "isZeroAt raw (sy * int w + sx)" using s by (simp add: isSource_def)
    have "(?k, v) \<in> set (aroundWrites raw w R sy sx)"
      unfolding set_aroundWrites
      by (intro conjI z exI [of _ "int py - sy"] exI [of _ "int px - sx"]) (use b n in simp_all)
    then show ?thesis
      unfolding set_featherWrites
      by (intro exI [of _ sy] exI [of _ sx]) (use s in \<open>simp add: isSource_def\<close>)
  qed
  show ?thesis using sub sup by auto
qed

lemma feather_nth_Min:
  assumes "0 < R" "length raw = w * h" "px < w" "py < h"
  shows "feather raw w h R ! (py * w + px) =
           (if 0 < raw ! (py * w + px)
            then Min (insert (raw ! (py * w + px)) (candidates raw w h R px py))
            else raw ! (py * w + px))"
proof -
  have k: "py * w + px < length raw" using cell_index_less [OF assms(3,4)] assms(2) by simp
  show ?thesis
    unfolding feather_writes [OF assms(1)] foldl_lowerAt_Min [OF k] writes_at_pixel [OF assms(2-4)]
    by simp
qed

lemma candidates_finite: "finite (candidates raw w h R px py)"
proof -
  have "candidates raw w h R px py \<subseteq>
      (\<lambda>s. fadeAlpha R (int px - fst s) (int py - snd s)) ` ({R ..< int w - R} \<times> {R ..< int h - R})"
    by (auto simp: candidates_def isSource_def image_iff) force
  then show ?thesis by (rule finite_subset) simp
qed

lemma fadeAlpha_antimono:
  assumes "0 < R" "offsetDistance dx dy \<le> offsetDistance dx' dy'"
  shows "fadeAlpha R dx' dy' \<le> fadeAlpha R dx dy"
proof -
  let ?q = "\<lambda>dx dy. dbl (dbl (offsetDistance dx dy) / real_of_int R)"
  have "dbl (offsetDistance dx dy) \<le> dbl (offsetDistance dx' dy')" using assms(2) by (rule dbl_mono)
  then have "dbl (offsetDistance dx dy) / real_of_int R \<le> dbl (offsetDistance dx' dy') / real_of_int R"
    using assms(1) by (simp add: divide_right_mono)
  then have "?q dx dy \<le> ?q dx' dy'" by (rule dbl_mono)
  then have "1 - ?q dx' dy' \<le> 1 - ?q dx dy" by simp
  then have "dbl (1 - ?q dx' dy') \<le> dbl (1 - ?q dx dy)" by (rule dbl_mono)
  then have "255 * dbl (1 - ?q dx' dy') \<le> 255 * dbl (1 - ?q dx dy)" by simp
  then have "dbl (255 * dbl (1 - ?q dx' dy')) \<le> dbl (255 * dbl (1 - ?q dx dy))" by (rule dbl_mono)
  then show ?thesis unfolding fadeAlpha_def by (rule floor_mono)
qed

lemma source_is_zero_pixel:
  assumes "0 < R" "isSource raw w h R sx sy"
  obtains cx cy where "sx = int cx" "sy = int cy" "cx < w" "cy < h" "raw ! (cy * w + cx) = 0"
proof -
  have s: "0 \<le> sx" "sx < int w" "0 \<le> sy" "sy < int h" "raw ! nat (sy * int w + sx) = 0"
    using assms by (simp_all add: isSource_def isZeroAt_def)
  have "nat (sy * int w + sx) = nat sy * w + nat sx"
    using s(1,3) by (simp add: nat_add_distrib nat_mult_distrib)
  then have "raw ! (nat sy * w + nat sx) = 0" using s(5) by simp
  then show ?thesis using s(1-4) by (intro that [of "nat sx" "nat sy"]) simp_all
qed

lemma feather_beyond_radius:
  assumes "0 < R" "length raw = w * h" "px < w" "py < h"
    and far: "\<forall>sx<w. \<forall>sy<h. raw ! (sy * w + sx) = 0 \<longrightarrow>
          real_of_int R < offsetDistance (int px - int sx) (int py - int sy)"
  shows "feather raw w h R ! (py * w + px) = raw ! (py * w + px)"
proof -
  have "candidates raw w h R px py = {}"
  proof (rule ccontr)
    assume "candidates raw w h R px py \<noteq> {}"
    then obtain sx sy where s: "isSource raw w h R sx sy"
      and d: "offsetDistance (int px - sx) (int py - sy) \<le> real_of_int R"
      unfolding candidates_def by blast
    from source_is_zero_pixel [OF assms(1) s] obtain cx cy
      where c: "sx = int cx" "sy = int cy" "cx < w" "cy < h" "raw ! (cy * w + cx) = 0" .
    have "real_of_int R < offsetDistance (int px - int cx) (int py - int cy)"
      using far c(3,4,5) by blast
    then show False using d c(1,2) by simp
  qed
  then show ?thesis by (simp add: feather_nth_Min [OF assms(1-4)])
qed

lemma feather_single_source_monotone:
  assumes R: "0 < R" and len: "length raw = w * h" and p: "px < w" "py < h" and q: "qx < w" "qy < h"
    and raw: "raw ! (qy * w + qx) \<le> raw ! (py * w + px)"
    and s: "isSource raw w h R sx sy"
    and d: "offsetDistance (int px - sx) (int py - sy) \<le> offsetDistance (int qx - sx) (int qy - sy)"
      "offsetDistance (int qx - sx) (int qy - sy) \<le> real_of_int R"
    and only: "\<forall>tx ty. isSource raw w h R tx ty \<and>
        offsetDistance (int px - tx) (int py - ty) \<le> real_of_int R \<longrightarrow> tx = sx \<and> ty = sy"
  shows "feather raw w h R ! (qy * w + qx) \<le> feather raw w h R ! (py * w + px)"
proof -
  let ?P = "raw ! (py * w + px)" and ?Q = "raw ! (qy * w + qx)"
  let ?cp = "fadeAlpha R (int px - sx) (int py - sy)"
  let ?cq = "fadeAlpha R (int qx - sx) (int qy - sy)"
  note outp = feather_nth_Min [OF R len p] and outq = feather_nth_Min [OF R len q]
  have q_le_raw: "feather raw w h R ! (qy * w + qx) \<le> ?Q"
    using feather_below [of raw w h R] cell_index_less [OF q] len by (simp add: below_def)
  show ?thesis
  proof (cases "0 < ?P")
    case False
    then show ?thesis using outp q_le_raw raw by simp
  next
    case True
    have dp: "offsetDistance (int px - sx) (int py - sy) \<le> real_of_int R" using d by simp
    have "candidates raw w h R px py = {?cp}"
      using s dp only unfolding candidates_def by blast
    then have op: "feather raw w h R ! (py * w + px) = min ?P ?cp" using outp True by simp
    have "feather raw w h R ! (qy * w + qx) \<le> ?cp"
    proof (cases "0 < ?Q")
      case True
      have "?cq \<in> insert ?Q (candidates raw w h R qx qy)"
        using s d(2) unfolding candidates_def by blast
      then have "Min (insert ?Q (candidates raw w h R qx qy)) \<le> ?cq"
        by (intro Min_le) (simp_all add: candidates_finite)
      also have "?cq \<le> ?cp" by (rule fadeAlpha_antimono [OF R d(1)])
      finally show ?thesis using outq True by simp
    next
      case False
      have "0 \<le> ?cp" by (rule fadeAlpha_nonneg [OF R dp])
      then show ?thesis using outq False by simp
    qed
    then show ?thesis using op q_le_raw raw by simp
  qed
qed

lemma fadeAlpha_radius2:
  "dx * dx + dy * dy = 1 \<Longrightarrow> fadeAlpha 2 dx dy = 127"
  "dx * dx + dy * dy = 2 \<Longrightarrow> fadeAlpha 2 dx dy = 74"
  "dx * dx + dy * dy = 4 \<Longrightarrow> fadeAlpha 2 dx dy = 0"
  by (simp_all add: fadeAlpha_sumSquare fade_eval)

lemma offsetDistance_greater:
  "real_of_int R < offsetDistance dx dy \<longleftrightarrow> R < 0 \<or> R * R < dx * dx + dy * dy"
  unfolding offsetDistance_def by (rule of_int_less_sqrt) simp

lemma twoSpot_length: "length twoSpotMask = 8 * 5"
  by (simp add: twoSpotMask_def)

lemma twoSpot_nth: "k < 40 \<Longrightarrow> twoSpotMask ! k = (if k = 18 \<or> k = 21 then 0 else 255)"
  by (simp add: twoSpotMask_def nth_list_update)

lemma twoSpot_sources:
  "isSource twoSpotMask 8 5 2 sx sy \<longleftrightarrow> sy = 2 \<and> (sx = 2 \<or> sx = 5)"
proof
  assume "isSource twoSpotMask 8 5 2 sx sy"
  then have r: "2 \<le> sx" "sx < 6" "2 \<le> sy" "sy < 3"
    and z: "twoSpotMask ! nat (sy * 8 + sx) = 0"
    by (simp_all add: isSource_def isZeroAt_def)
  have sy: "sy = 2" using r by simp
  have "sx = 2 \<or> sx = 3 \<or> sx = 4 \<or> sx = 5" using r by arith
  then show "sy = 2 \<and> (sx = 2 \<or> sx = 5)"
    using z sy by (auto simp: twoSpot_nth)
next
  assume "sy = 2 \<and> (sx = 2 \<or> sx = 5)"
  then show "isSource twoSpotMask 8 5 2 sx sy"
    by (auto simp: isSource_def isZeroAt_def twoSpot_nth twoSpot_length)
qed

lemma candidates_image:
  "candidates raw w h R px py =
     (\<lambda>s. fadeAlpha R (int px - fst s) (int py - snd s)) `
       {s. isSource raw w h R (fst s) (snd s) \<and>
           offsetDistance (int px - fst s) (int py - snd s) \<le> real_of_int R}"
  unfolding candidates_def by (auto simp: image_iff) blast

lemma twoSpot_reaching:
  "{s. isSource twoSpotMask 8 5 2 (fst s) (snd s) \<and>
       offsetDistance (int 3 - fst s) (int 2 - snd s) \<le> real_of_int 2} = {(2, 2), (5, 2)}"
  "{s. isSource twoSpotMask 8 5 2 (fst s) (snd s) \<and>
       offsetDistance (int 3 - fst s) (int 3 - snd s) \<le> real_of_int 2} = {(2, 2)}"
  unfolding twoSpot_sources offsetDistance_le by auto

lemma twoSpot_candidates:
  "candidates twoSpotMask 8 5 2 3 2 = {127, 0}"
  "candidates twoSpotMask 8 5 2 3 3 = {74}"
  unfolding candidates_image twoSpot_reaching by (simp_all add: fadeAlpha_radius2)

text \<open>One source at the centre, radius 5: the pixel at distance 4 to its right.\<close>

lemma centre_length: "length centreMask = 11 * 11"
  by (simp add: centreMask_def)

lemma centre_nth: "k < 121 \<Longrightarrow> centreMask ! k = (if k = 60 then 0 else 255)"
  by (simp add: centreMask_def nth_list_update)

lemma centre_sources: "isSource centreMask 11 11 5 sx sy \<longleftrightarrow> sx = 5 \<and> sy = 5"
  by (auto simp: isSource_def isZeroAt_def centre_nth centre_length)

lemma centre_candidates: "candidates centreMask 11 11 5 9 5 = {50}"
proof -
  have "{s. isSource centreMask 11 11 5 (fst s) (snd s) \<and>
        offsetDistance (int 9 - fst s) (int 5 - snd s) \<le> real_of_int 5} = {(5, 5)}"
    unfolding centre_sources offsetDistance_le by auto
  moreover have "fadeAlpha 5 4 0 = 50" by (simp add: fadeAlpha_sumSquare fade_eval)
  ultimately show ?thesis unfolding candidates_image by simp
qed


section \<open>The fade value and the small masks, evaluated\<close>

text \<open>
  The fade values of the radii 1 to 5 of the slider at the offsets \<open>(k, 0)\<close>. At radius 5
  and distance 4 the value is 50; \<open>255 * (1 - 4 / 5)\<close> is 51.
\<close>

lemma fadeAlpha_axis:
  "map (fadeAlpha 1 0) [0, 1] = [255, 0]"
  "map (fadeAlpha 2 0) [0, 1, 2] = [255, 127, 0]"
  "map (fadeAlpha 3 0) [0, 1, 2, 3] = [255, 170, 85, 0]"
  "map (fadeAlpha 4 0) [0, 1, 2, 3, 4] = [255, 191, 127, 63, 0]"
  "map (fadeAlpha 5 0) [0, 1, 2, 3, 4, 5] = [255, 204, 153, 102, 50, 0]"
  by (simp_all add: fadeAlpha_code fade_eval)

lemma featherNeighbor_code [code]:
  "featherNeighbor alphaChannel w featherRadius x y dy dx newAlpha =
     (let neighborIdx = (y + dy) * int w + (x + dx) in
      if (0 \<le> featherRadius \<and> dx * dx + dy * dy \<le> featherRadius * featherRadius) \<and>
         isPositiveAt alphaChannel neighborIdx
      then newAlpha[nat neighborIdx :=
             min (newAlpha ! nat neighborIdx) (fadeAlpha featherRadius dx dy)]
      else newAlpha)"
  unfolding featherNeighbor_def offsetDistance_le ..

text \<open>The small masks, evaluated.\<close>

lemma spot_feathered: "feather spotMask 3 3 1 = [255, 0, 255, 0, 0, 0, 255, 0, 255]"
  by code_simp

lemma strip_masks:
  "rawAlpha \<lparr>colorTolerance = 30, edgeDetection = 1, feathering = 2\<rparr> stripImage = [0, 0, 0]"
  "finalAlpha \<lparr>colorTolerance = 30, edgeDetection = 1, feathering = 2\<rparr> stripImage = [0, 0, 0]"
  by code_simp+

lemma twoSpot_feathered:
  "feather twoSpotMask 8 5 2 ! (2 * 8 + 3) = 0"
  "feather twoSpotMask 8 5 2 ! (3 * 8 + 3) = 74"
proof -
  have h: "(0 :: int) < 2" "length twoSpotMask = 8 * 5" "(3 :: nat) < 8" "(2 :: nat) < 5"
    "(3 :: nat) < 5"
    by (simp_all add: twoSpot_length)
  show "feather twoSpotMask 8 5 2 ! (2 * 8 + 3) = 0"
    using feather_nth_Min [OF h(1,2,3,4)] by (simp add: twoSpot_nth twoSpot_candidates)
  show "feather twoSpotMask 8 5 2 ! (3 * 8 + 3) = 74"
    using feather_nth_Min [OF h(1,2,3,5)] by (simp add: twoSpot_nth twoSpot_candidates)
qed

section \<open>End to end on the ring raster\<close>

text \<open>
  Claim C1. On the 10 x 10 raster with a blue one-pixel ring and a red interior, with
  tolerance 30, edge sensitivity 1 (threshold 10) and feathering 0, the output has alpha
  0 at every ring pixel that the edge detector does not flag and alpha 255 at every
  interior pixel. (The detector flags no ring pixel, so the whole ring has alpha 0.)
\<close>

theorem ring_scenario:
  assumes "x < 10" "y < 10"
  shows "width (removeBackground ringSettings ringImage) = 10 \<and>
         height (removeBackground ringSettings ringImage) = 10 \<and>
         (onRing x y \<and> \<not> detectEdges ringImage (edgeDetection ringSettings * 10) ! (y * 10 + x)
            \<longrightarrow> byteAt (data (removeBackground ringSettings ringImage)) ((y * 10 + x) * 4 + 3) = 0) \<and>
         (\<not> onRing x y
            \<longrightarrow> byteAt (data (removeBackground ringSettings ringImage)) ((y * 10 + x) * 4 + 3) = 255) \<and>
         (onRing x y \<longrightarrow> \<not> detectEdges ringImage (edgeDetection ringSettings * 10) ! (y * 10 + x))"
proof -
  have i: "y * 10 + x < width ringImage * height ringImage"
    using assms by (simp add: ringImage_dims)
  have f: "finalAlpha ringSettings ringImage = rawAlpha ringSettings ringImage"
    by (simp add: finalAlpha_def ringSettings_def feather_def)
  have a: "byteAt (data (removeBackground ringSettings ringImage)) ((y * 10 + x) * 4 + 3) =
           rawAlpha ringSettings ringImage ! (y * 10 + x)"
    using removeBackground_bytes(4) [OF ringImage_wf i, of ringSettings] by (simp add: byteAt_def f)
  have t: "edgeDetection ringSettings * 10 = 10" by (simp add: ringSettings_def)
  show ?thesis
    unfolding a t ringImage_rawAlpha [OF assms]
    using ringImage_border_edges [OF assms]
    by (simp add: removeBackground_def ringImage_dims)
qed

theorem ring_scenario_witness:
  "byteAt (data (removeBackground ringSettings ringImage)) ((0 * 10 + 0) * 4 + 3) = 0 \<and>
   byteAt (data (removeBackground ringSettings ringImage)) ((3 * 10 + 9) * 4 + 3) = 0 \<and>
   byteAt (data (removeBackground ringSettings ringImage)) ((1 * 10 + 1) * 4 + 3) = 255 \<and>
   byteAt (data (removeBackground ringSettings ringImage)) ((5 * 10 + 5) * 4 + 3) = 255"
  using ring_scenario [of 0 0] ring_scenario [of 9 3] ring_scenario [of 1 1] ring_scenario [of 5 5]
  by (simp add: onRing_def)

section \<open>The three-way classification\<close>

text \<open>
  Claim C2. For every pixel of the raster, the raw alpha is 0 when the minimum colour
  distance to the palette is below the tolerance and the pixel is not an edge, it is
  \<open>floor (255 * 0.3) = 76\<close> when that minimum is below the tolerance and the pixel is an
  edge, and 255 otherwise (which includes an empty palette).
\<close>

theorem classifier_three_way:
  assumes "x < width img" "y < height img"
  shows "classify img edges palette tol ! (y * width img + x) =
           (case minDistance palette (pixelRGB img (x, y)) of
              None \<Rightarrow> 255
            | Some m \<Rightarrow>
                if m < real_of_int tol \<and> \<not> edges ! (y * width img + x) then 0
                else if m < real_of_int tol then \<lfloor>255 * (0.3 :: real)\<rfloor>
                else 255)
         \<and> \<lfloor>255 * (0.3 :: real)\<rfloor> = (76 :: int)"
  using classify_nth [OF assms, of edges palette tol]
  by (simp add: isBackground_minDistance split: option.splits)

theorem classifier_three_way_witness:
  "classify stripImage [False, True, False] [(0, 0, 255)] 30 ! 0 = 0 \<and>
   classify stripImage [False, True, False] [(0, 0, 255)] 30 ! 1 = 76 \<and>
   classify stripImage [False, True, False] [(0, 0, 255)] 30 ! 2 = 255"
proof -
  have w: "(0 :: nat) < width stripImage" "(1 :: nat) < width stripImage"
    "(2 :: nat) < width stripImage" "(0 :: nat) < height stripImage"
    by (simp_all add: stripImage_def)
  have blue0: "minDistance [(0, 0, 255)] (pixelRGB stripImage (0, 0)) = Some 0"
    by (simp add: minDistance_def pixelRGB_def stripImage_def byteAt_def colorDistance_def)
  have blue1: "minDistance [(0, 0, 255)] (pixelRGB stripImage (1, 0)) = Some 0"
    by (simp add: minDistance_def pixelRGB_def stripImage_def byteAt_def colorDistance_def)
  have red2: "minDistance [(0, 0, 255)] (pixelRGB stripImage (2, 0)) = Some (sqrt 130050)"
    by (simp add: minDistance_def pixelRGB_def stripImage_def byteAt_def colorDistance_def)
  have far: "\<not> sqrt 130050 < (30 :: real)"
    using sqrt_less_of_int [of 130050 30] by simp
  have p0: "classify stripImage [False, True, False] [(0, 0, 255)] 30 ! (0 * width stripImage + 0) = 0"
    using classifier_three_way [OF w(1) w(4), of "[False, True, False]" "[(0, 0, 255)]" 30, THEN conjunct1]
    unfolding blue0 by (simp add: stripImage_def)
  have p1: "classify stripImage [False, True, False] [(0, 0, 255)] 30 ! (0 * width stripImage + 1) = 76"
    using classifier_three_way [OF w(2) w(4), of "[False, True, False]" "[(0, 0, 255)]" 30, THEN conjunct1]
    unfolding blue1 by (simp add: stripImage_def)
  have p2: "classify stripImage [False, True, False] [(0, 0, 255)] 30 ! (0 * width stripImage + 2) = 255"
    using classifier_three_way [OF w(3) w(4), of "[False, True, False]" "[(0, 0, 255)]" 30, THEN conjunct1]
    unfolding red2 using far by (simp add: stripImage_def)
  show ?thesis using p0 p1 p2 by (simp add: numeral_2_eq_2)
qed

section \<open>Feathering outward from zero-alpha pixels\<close>

text \<open>
  Claim C3, as stated: with a radius above 0 the feathered alpha values do not increase
  moving outward from a zero-alpha region up to the radius. This fails where two sources
  overlap. In the 8 x 5 mask with zero-alpha pixels (2, 2) and (5, 2) and radius 2, pixel
  (3, 2) is at distance 1 from (2, 2) and pixel (3, 3) at distance \<open>sqrt 2\<close>, both further
  from (5, 2); yet (3, 2) is feathered to 0, by the source (5, 2) at distance 2, and the
  farther pixel (3, 3) to 74.
\<close>

theorem feather_not_monotone_counterexample:
  "twoSpotMask ! (2 * 8 + 2) = 0 \<and> twoSpotMask ! (2 * 8 + 5) = 0 \<and>
   twoSpotMask ! (2 * 8 + 3) = 255 \<and> twoSpotMask ! (3 * 8 + 3) = 255 \<and>
   offsetDistance (3 - 2) (2 - 2) < offsetDistance (3 - 2) (3 - 2) \<and>
   offsetDistance (3 - 2) (3 - 2) \<le> 2 \<and>
   offsetDistance (3 - 2) (3 - 2) < offsetDistance (3 - 5) (3 - 2) \<and>
   feather twoSpotMask 8 5 2 ! (2 * 8 + 3) = 0 \<and>
   feather twoSpotMask 8 5 2 ! (3 * 8 + 3) = 74 \<and>
   feather twoSpotMask 8 5 2 ! (2 * 8 + 3) < feather twoSpotMask 8 5 2 ! (3 * 8 + 3)"
proof -
  have "offsetDistance 1 1 \<le> real_of_int 2" unfolding offsetDistance_le by simp
  then show ?thesis
    using twoSpot_feathered by (simp add: twoSpot_nth offsetDistance_def)
qed

text \<open>
  Claim C3, amended. With a radius above 0 and a mask of \<open>w * h\<close> cells, the feathered
  alpha of a pixel with positive raw alpha is the minimum of its raw alpha and the
  candidates of all sources (zero-alpha pixels visited by the loops) at distance
  \<open>d \<le> R\<close>, the candidate being \<^verbatim>\<open>Math.floor(255 * (1 - d / R))\<close> as the code
  computes it in double precision (\<open>fadeAlpha\<close>); other pixels keep their raw alpha. The
  candidate does not increase with the distance. A pixel farther than the radius from
  every zero-alpha pixel keeps its raw alpha. And where one source is the only one
  within the radius of a pixel, a pixel farther from that source (still within the
  radius) whose raw alpha is not larger is feathered to a value that is not larger.
\<close>

theorem feather_min_of_candidates:
  assumes "0 < R" "length raw = w * h" "px < w" "py < h"
  shows
    "feather raw w h R ! (py * w + px) =
       (if 0 < raw ! (py * w + px)
        then Min (insert (raw ! (py * w + px)) (candidates raw w h R px py))
        else raw ! (py * w + px))
     \<and> (offsetDistance dx dy \<le> offsetDistance dx' dy' \<longrightarrow> fadeAlpha R dx' dy' \<le> fadeAlpha R dx dy)
     \<and> ((\<forall>sx<w. \<forall>sy<h. raw ! (sy * w + sx) = 0 \<longrightarrow>
            real_of_int R < offsetDistance (int px - int sx) (int py - int sy))
         \<longrightarrow> feather raw w h R ! (py * w + px) = raw ! (py * w + px))
     \<and> (qx < w \<and> qy < h \<and> raw ! (qy * w + qx) \<le> raw ! (py * w + px) \<and>
         isSource raw w h R tx ty \<and>
         offsetDistance (int px - tx) (int py - ty) \<le> offsetDistance (int qx - tx) (int qy - ty) \<and>
         offsetDistance (int qx - tx) (int qy - ty) \<le> real_of_int R \<and>
         (\<forall>ux uy. isSource raw w h R ux uy \<and>
              offsetDistance (int px - ux) (int py - uy) \<le> real_of_int R \<longrightarrow> ux = tx \<and> uy = ty)
         \<longrightarrow> feather raw w h R ! (qy * w + qx) \<le> feather raw w h R ! (py * w + px))"
proof (intro conjI impI)
  show "feather raw w h R ! (py * w + px) =
       (if 0 < raw ! (py * w + px)
        then Min (insert (raw ! (py * w + px)) (candidates raw w h R px py))
        else raw ! (py * w + px))"
    by (rule feather_nth_Min [OF assms])
next
  assume "offsetDistance dx dy \<le> offsetDistance dx' dy'"
  then show "fadeAlpha R dx' dy' \<le> fadeAlpha R dx dy"
    by (rule fadeAlpha_antimono [OF assms(1)])
next
  assume "\<forall>sx<w. \<forall>sy<h. raw ! (sy * w + sx) = 0 \<longrightarrow>
            real_of_int R < offsetDistance (int px - int sx) (int py - int sy)"
  then show "feather raw w h R ! (py * w + px) = raw ! (py * w + px)"
    by (rule feather_beyond_radius [OF assms])
next
  assume a: "qx < w \<and> qy < h \<and> raw ! (qy * w + qx) \<le> raw ! (py * w + px) \<and>
         isSource raw w h R tx ty \<and>
         offsetDistance (int px - tx) (int py - ty) \<le> offsetDistance (int qx - tx) (int qy - ty) \<and>
         offsetDistance (int qx - tx) (int qy - ty) \<le> real_of_int R \<and>
         (\<forall>ux uy. isSource raw w h R ux uy \<and>
              offsetDistance (int px - ux) (int py - uy) \<le> real_of_int R \<longrightarrow> ux = tx \<and> uy = ty)"
  show "feather raw w h R ! (qy * w + qx) \<le> feather raw w h R ! (py * w + px)"
    by (rule feather_single_source_monotone [OF assms, of qx qy tx ty]) (use a in blast)+
qed

theorem feather_min_of_candidates_witness:
  "feather twoSpotMask 8 5 2 ! (3 * 8 + 3) = 74 \<and>
   feather centreMask 11 11 5 ! (5 * 11 + 9) = 50 \<and>
   fadeAlpha 2 1 1 \<le> fadeAlpha 2 1 0 \<and>
   feather twoSpotMask 8 5 2 ! (0 * 8 + 0) = 255 \<and>
   feather twoSpotMask 8 5 2 ! (3 * 8 + 3) \<le> feather twoSpotMask 8 5 2 ! (3 * 8 + 2)"
proof -
  have h: "(0 :: int) < 2" "length twoSpotMask = 8 * 5" "(3 :: nat) < 8" "(3 :: nat) < 5"
    "(2 :: nat) < 8" "(0 :: nat) < 8" "(0 :: nat) < 5"
    by (simp_all add: twoSpot_length)
  have d: "offsetDistance 1 0 \<le> offsetDistance 1 1"
    by (simp add: offsetDistance_def)
  have far: "\<forall>sx<8. \<forall>sy<5. twoSpotMask ! (sy * 8 + sx) = 0 \<longrightarrow>
      real_of_int 2 < offsetDistance (int 0 - int sx) (int 0 - int sy)"
  proof (intro allI impI)
    fix sx sy :: nat
    assume s: "sx < 8" "sy < 5" "twoSpotMask ! (sy * 8 + sx) = 0"
    then have "sy * 8 + sx = 18 \<or> sy * 8 + sx = 21"
      using twoSpot_nth [of "sy * 8 + sx"] by (simp split: if_splits)
    then have "sy = 2 \<and> (sx = 2 \<or> sx = 5)" using s(1) by arith
    then show "real_of_int 2 < offsetDistance (int 0 - int sx) (int 0 - int sy)"
      unfolding offsetDistance_greater by auto
  qed
  have mono: "(3 :: nat) < 8 \<and> (3 :: nat) < 5 \<and>
      twoSpotMask ! (3 * 8 + 3) \<le> twoSpotMask ! (3 * 8 + 2) \<and>
      isSource twoSpotMask 8 5 2 2 2 \<and>
      offsetDistance (int 2 - 2) (int 3 - 2) \<le> offsetDistance (int 3 - 2) (int 3 - 2) \<and>
      offsetDistance (int 3 - 2) (int 3 - 2) \<le> real_of_int 2 \<and>
      (\<forall>ux uy. isSource twoSpotMask 8 5 2 ux uy \<and>
          offsetDistance (int 2 - ux) (int 3 - uy) \<le> real_of_int 2 \<longrightarrow> ux = 2 \<and> uy = 2)"
    unfolding twoSpot_sources offsetDistance_le
    by (auto simp: twoSpot_nth offsetDistance_def)
  have t1: "feather twoSpotMask 8 5 2 ! (3 * 8 + 3) = 74"
    using feather_min_of_candidates [OF h(1,2,3,4), THEN conjunct1]
    by (simp add: twoSpot_nth twoSpot_candidates)
  have t2: "fadeAlpha 2 1 1 \<le> fadeAlpha 2 1 0"
    using feather_min_of_candidates [OF h(1,2,3,4), of 1 0 1 1] d by blast
  have "feather twoSpotMask 8 5 2 ! (0 * 8 + 0) = twoSpotMask ! (0 * 8 + 0)"
    using feather_min_of_candidates [OF h(1,2,6,7), THEN conjunct2, THEN conjunct2, THEN conjunct1]
      far by blast
  then have t3: "feather twoSpotMask 8 5 2 ! (0 * 8 + 0) = 255"
    by (simp add: twoSpot_nth)
  have t4: "feather twoSpotMask 8 5 2 ! (3 * 8 + 3) \<le> feather twoSpotMask 8 5 2 ! (3 * 8 + 2)"
    using feather_min_of_candidates [OF h(1,2,5,4), of _ _ _ _ 3 3 2 2] mono by blast
  have c: "(0 :: int) < 5" "length centreMask = 11 * 11" "(9 :: nat) < 11" "(5 :: nat) < 11"
    by (simp_all add: centre_length)
  have t5: "feather centreMask 11 11 5 ! (5 * 11 + 9) = 50"
    using feather_min_of_candidates [OF c, THEN conjunct1]
    by (simp add: centre_nth centre_candidates)
  show ?thesis using t1 t2 t3 t4 t5 by blast
qed

section \<open>Length of the palette; uniform borders\<close>

text \<open>
  Claim C4. For every raster the palette has \<open>min 3 n\<close> entries, where \<open>n\<close> is the number
  of clusters of the sampled border colours under the distance-30, first-match-wins
  clustering. If the raster has positive dimensions and every border pixel has the same
  colour, there is one cluster and the palette is exactly that colour.
\<close>

theorem palette_length_and_uniform_border:
  "length (getBackgroundColors img) = min 3 (length (clusterReps (sampledColors img)))
   \<and> (0 < width img \<and> 0 < height img \<and>
        (\<forall>x<width img. \<forall>y<height img.
            x = 0 \<or> y = 0 \<or> x = width img - 1 \<or> y = height img - 1 \<longrightarrow> pixelRGB img (x, y) = c)
      \<longrightarrow> clusterReps (sampledColors img) = [c] \<and> getBackgroundColors img = [c])"
  using getBackgroundColors_length [of img] uniform_border_palette [of img c] by blast

theorem palette_length_and_uniform_border_witness:
  "getBackgroundColors flatImage = [(7, 7, 7)] \<and>
   length (getBackgroundColors flatImage) = min 3 (length (clusterReps (sampledColors flatImage)))"
proof -
  have u: "\<forall>x<width flatImage. \<forall>y<height flatImage.
     x = 0 \<or> y = 0 \<or> x = width flatImage - 1 \<or> y = height flatImage - 1 \<longrightarrow>
     pixelRGB flatImage (x, y) = (7, 7, 7)"
    by (simp add: flatImage_def pixelRGB_def byteAt_def)
  have d: "0 < width flatImage \<and> 0 < height flatImage" by (simp add: flatImage_def)
  show ?thesis
    using palette_length_and_uniform_border [of flatImage "(7, 7, 7)"] u d by blast
qed

section \<open>Edge masks of uniform rasters and of the border\<close>

text \<open>
  Claim C5. For every raster and every threshold, the edge mask is false at every border
  pixel (x = 0, y = 0, x = W - 1 or y = H - 1). For every raster all of whose pixels have
  the same colour, and every threshold that is not negative (the thresholds of the
  pipeline are 10 times a setting between 1 and 10), the edge mask is false at every
  pixel.
\<close>

theorem detectEdges_uniform_and_border:
  "(x < width img \<and> y < height img \<and>
      (x = 0 \<or> y = 0 \<or> x = width img - 1 \<or> y = height img - 1)
      \<longrightarrow> \<not> detectEdges img t ! (y * width img + x))
   \<and> ((\<forall>x<width img. \<forall>y<height img. pixelRGB img (x, y) = c) \<and> 0 \<le> t \<and>
         i < width img * height img
      \<longrightarrow> \<not> detectEdges img t ! i)"
proof (intro conjI impI)
  assume "x < width img \<and> y < height img \<and>
      (x = 0 \<or> y = 0 \<or> x = width img - 1 \<or> y = height img - 1)"
  then show "\<not> detectEdges img t ! (y * width img + x)"
    by (auto simp: detectEdges_nth)
next
  assume a: "(\<forall>x<width img. \<forall>y<height img. pixelRGB img (x, y) = c) \<and> 0 \<le> t \<and>
         i < width img * height img"
  then have i: "i < width img * height img" and u: "\<forall>x<width img. \<forall>y<height img. pixelRGB img (x, y) = c"
    and t: "0 \<le> t" by simp_all
  note c = cell_of_index [OF i]
  have "\<not> detectEdges img t ! (i div width img * width img + i mod width img)"
    unfolding detectEdges_nth [OF c(1,2)] using magnitude_uniform [OF u] t by auto
  then show "\<not> detectEdges img t ! i" unfolding c(3) .
qed

theorem detectEdges_uniform_and_border_witness:
  "\<not> detectEdges stripImage (- 5) ! 2 \<and> \<not> detectEdges flatImage 10 ! 4"
proof -
  have u: "\<forall>x<width flatImage. \<forall>y<height flatImage. pixelRGB flatImage (x, y) = (7, 7, 7)"
    by (simp add: flatImage_def pixelRGB_def byteAt_def)
  have b: "(2 :: nat) < width stripImage \<and> (0 :: nat) < height stripImage \<and>
      ((2 :: nat) = 0 \<or> (0 :: nat) = 0 \<or> (2 :: nat) = width stripImage - 1 \<or> (0 :: nat) = height stripImage - 1)"
    by (simp add: stripImage_def)
  have i: "(4 :: nat) < width flatImage * height flatImage" by (simp add: flatImage_def)
  have e1: "\<not> detectEdges stripImage (- 5) ! (0 * width stripImage + 2)"
    using detectEdges_uniform_and_border [of 2 stripImage 0 "- 5" "(7, 7, 7)" 0] b by blast
  have e2: "\<not> detectEdges flatImage 10 ! 4"
    using detectEdges_uniform_and_border [of 0 flatImage 0 10 "(7, 7, 7)" 4] u i by simp
  show ?thesis using e1 e2 by (simp add: numeral_2_eq_2)
qed

section \<open>Feathering with radius 0\<close>

text \<open>
  Claim C6. Feathering with radius 0 is the identity: for every raw alpha mask (and any
  dimensions) the output mask is the input mask.
\<close>

theorem feather_radius_zero_identity: "feather raw w h 0 = raw"
  by (simp add: feather_def)

section \<open>Frame: dimensions and colour channels\<close>

text \<open>
  Claim C7. For every well-formed raster and all settings the output raster has the
  width and height of the input and the same red, green and blue bytes at every pixel;
  the alpha byte of each pixel is the value of the final mask there.
\<close>

theorem removeBackground_frame:
  assumes "wfImage img" "i < width img * height img"
  shows "width (removeBackground s img) = width img \<and>
         height (removeBackground s img) = height img \<and>
         length (data (removeBackground s img)) = length (data img) \<and>
         data (removeBackground s img) ! (i * 4) = data img ! (i * 4) \<and>
         data (removeBackground s img) ! (i * 4 + 1) = data img ! (i * 4 + 1) \<and>
         data (removeBackground s img) ! (i * 4 + 2) = data img ! (i * 4 + 2) \<and>
         uint (data (removeBackground s img) ! (i * 4 + 3)) = finalAlpha s img ! i"
  using removeBackground_bytes [OF assms, of s]
  by (simp add: removeBackground_def applyAlpha_length)

theorem removeBackground_frame_witness:
  "wfImage stripImage \<and> (1 :: nat) < width stripImage * height stripImage \<and>
   width (removeBackground \<lparr>colorTolerance = 30, edgeDetection = 1, feathering = 0\<rparr> stripImage) = 3 \<and>
   height (removeBackground \<lparr>colorTolerance = 30, edgeDetection = 1, feathering = 0\<rparr> stripImage) = 1 \<and>
   data (removeBackground \<lparr>colorTolerance = 30, edgeDetection = 1, feathering = 0\<rparr> stripImage) ! 4 = 0 \<and>
   data (removeBackground \<lparr>colorTolerance = 30, edgeDetection = 1, feathering = 0\<rparr> stripImage) ! 5 = 0 \<and>
   data (removeBackground \<lparr>colorTolerance = 30, edgeDetection = 1, feathering = 0\<rparr> stripImage) ! 6 = 255"
proof -
  have wf: "wfImage stripImage" by (simp add: wfImage_def stripImage_def)
  have i: "(1 :: nat) < width stripImage * height stripImage" by (simp add: stripImage_def)
  show ?thesis
    using wf i removeBackground_frame [OF wf i, of "\<lparr>colorTolerance = 30, edgeDetection = 1, feathering = 0\<rparr>"]
    by (simp add: stripImage_def)
qed

section \<open>Determinism and the order of the palette\<close>

text \<open>
  Claim C8. The pipeline reads its raster and its settings and nothing else; it is a
  function of the two, and so is its model. The palette does not even depend on the whole
  raster: two rasters of the same size whose sampled border pixels have the same colours
  have the same palette. The one place where more than the counts decides is the order
  of clusters with equal counts, and it is fixed as the claim has it. The colour array of
  the sampler lists the clusters in the order in which they were created, each with the
  number of samples that joined it. The palette is the one of \<open>specPalette\<close>: the
  clusters ranked by descending count and, among equal counts, by the position at which
  their first member was sampled, cut to three. And of two entries of the palette the
  earlier one has the larger count, or the same count and the earlier first sample.
\<close>

theorem palette_ranked_by_count_then_first_sample:
  "colorCounts img =
     map (\<lambda>c. (c, clusterCount (sampledColors img) c)) (clusterReps (sampledColors img))
   \<and> getBackgroundColors img = specPalette (sampledColors img)
   \<and> (i < j \<and> j < length (getBackgroundColors img) \<longrightarrow>
        clusterCount (sampledColors img) (getBackgroundColors img ! j)
          < clusterCount (sampledColors img) (getBackgroundColors img ! i)
        \<or> clusterCount (sampledColors img) (getBackgroundColors img ! j)
            = clusterCount (sampledColors img) (getBackgroundColors img ! i)
          \<and> firstIndex (sampledColors img) (getBackgroundColors img ! i)
              < firstIndex (sampledColors img) (getBackgroundColors img ! j))
   \<and> (width img' = width img \<and> height img' = height img \<and>
       (\<forall>p\<in>set (samplePixels (width img) (height img)). pixelRGB img' p = pixelRGB img p) \<longrightarrow>
        getBackgroundColors img' = getBackgroundColors img)"
proof -
  define S where "S = sampledColors img"
  define xs where "xs = map (\<lambda>c. (c, clusterCount S c)) (clusterReps S)"
  define f :: "rgb \<times> int \<Rightarrow> int" where "f = (\<lambda>c. - snd c)"
  define g :: "rgb \<times> int \<Rightarrow> nat" where "g = (\<lambda>x. firstIndex S (fst x))"
  define ys where "ys = sort_key (\<lambda>x. (f x, g x)) xs"
  have counts: "colorCounts img = xs"
    unfolding colorCounts_def xs_def S_def by (rule foldl_tally_counts)
  have gs: "map g xs = map (firstIndex S) (clusterReps S)"
    by (simp add: xs_def g_def comp_def)
  have incr: "sorted_wrt (<) (map g xs)" unfolding gs by (rule clusterReps_first_seen)
  have sorted: "sort_key f xs = ys" unfolding ys_def by (rule sort_key_secondary [OF incr])
  have pal: "getBackgroundColors img = map fst (take 3 ys)"
    unfolding getBackgroundColors_def counts sorted [symmetric] f_def ..
  have key: "(\<lambda>(c, n). (- n, firstIndex S c)) = (\<lambda>x. (f x, g x))"
    by (simp add: fun_eq_iff f_def g_def)
  have spec: "getBackgroundColors img = specPalette S"
    unfolding pal specPalette_def key ys_def xs_def ..
  have ranked: "clusterCount S (getBackgroundColors img ! j) < clusterCount S (getBackgroundColors img ! i)
      \<or> clusterCount S (getBackgroundColors img ! j) = clusterCount S (getBackgroundColors img ! i)
        \<and> firstIndex S (getBackgroundColors img ! i) < firstIndex S (getBackgroundColors img ! j)"
    if ij: "i < j" "j < length (getBackgroundColors img)"
  proof -
    have len: "length ys = length xs" by (simp add: ys_def)
    have j: "j < 3" "j < length xs" using ij(2) len by (simp_all add: pal)
    then have i: "i < 3" "i < length xs" using ij(1) by simp_all
    have dist: "distinct (map g xs)" using incr by (simp add: strict_sorted_iff)
    have nth: "getBackgroundColors img ! k = fst (ys ! k)" if "k < 3" "k < length xs" for k
      using that len by (simp add: pal)
    have cnt: "snd (ys ! k) = clusterCount S (fst (ys ! k))" if "k < length xs" for k
    proof -
      have "ys ! k \<in> set ys" using that len by simp
      then have "ys ! k \<in> set xs" by (simp add: ys_def)
      then show ?thesis by (auto simp: xs_def)
    qed
    have "f (ys ! i) < f (ys ! j) \<or> f (ys ! i) = f (ys ! j) \<and> g (ys ! i) < g (ys ! j)"
      unfolding ys_def by (rule sort_key_strict [OF dist ij(1) j(2)])
    then show ?thesis
      unfolding nth [OF i] nth [OF j] f_def g_def cnt [OF i(2)] cnt [OF j(2)] by auto
  qed
  have same: "getBackgroundColors img' = getBackgroundColors img"
    if "width img' = width img \<and> height img' = height img \<and>
       (\<forall>p\<in>set (samplePixels (width img) (height img)). pixelRGB img' p = pixelRGB img p)"
  proof -
    have "sampledColors img' = sampledColors img"
      unfolding sampledColors_def using that by (simp cong: map_cong)
    then show ?thesis by (simp add: getBackgroundColors_def colorCounts_def)
  qed
  show ?thesis using counts spec ranked same unfolding xs_def S_def by blast
qed

theorem palette_ranked_by_count_then_first_sample_witness:
  "colorCounts podiumImage = [((0, 0, 255), 3), ((0, 255, 0), 2), ((255, 0, 0), 3)] \<and>
   getBackgroundColors podiumImage = [(0, 0, 255), (255, 0, 0), (0, 255, 0)] \<and>
   specPalette (sampledColors podiumImage) = [(0, 0, 255), (255, 0, 0), (0, 255, 0)] \<and>
   (0 :: nat) < 1 \<and> 1 < length (getBackgroundColors podiumImage) \<and>
   clusterCount (sampledColors podiumImage) (getBackgroundColors podiumImage ! 1) =
     clusterCount (sampledColors podiumImage) (getBackgroundColors podiumImage ! 0) \<and>
   firstIndex (sampledColors podiumImage) (getBackgroundColors podiumImage ! 0) <
     firstIndex (sampledColors podiumImage) (getBackgroundColors podiumImage ! 1) \<and>
   (1 :: nat) < 2 \<and> 2 < length (getBackgroundColors podiumImage) \<and>
   clusterCount (sampledColors podiumImage) (getBackgroundColors podiumImage ! 2) <
     clusterCount (sampledColors podiumImage) (getBackgroundColors podiumImage ! 1) \<and>
   data podiumVariant ! 4 = 77 \<and> data podiumImage ! 4 = 9 \<and>
   width podiumVariant = width podiumImage \<and> height podiumVariant = height podiumImage \<and>
   map (pixelRGB podiumVariant) (samplePixels (width podiumImage) (height podiumImage)) =
     map (pixelRGB podiumImage) (samplePixels (width podiumImage) (height podiumImage)) \<and>
   getBackgroundColors podiumVariant = [(0, 0, 255), (255, 0, 0), (0, 255, 0)]"
proof -
  note counts = palette_ranked_by_count_then_first_sample [of podiumImage 0 1, THEN conjunct1]
  note spec = palette_ranked_by_count_then_first_sample [of podiumImage 0 1, THEN conjunct2, THEN conjunct1]
  note r01 = palette_ranked_by_count_then_first_sample [of podiumImage 0 1, THEN conjunct2, THEN conjunct2,
      THEN conjunct1]
  note r12 = palette_ranked_by_count_then_first_sample [of podiumImage 1 2, THEN conjunct2, THEN conjunct2,
      THEN conjunct1]
  note same = palette_ranked_by_count_then_first_sample [of podiumImage 0 1 podiumVariant, THEN conjunct2,
      THEN conjunct2, THEN conjunct2]
  have len: "(0 :: nat) < 1 \<and> 1 < length (getBackgroundColors podiumImage)"
    "(1 :: nat) < 2 \<and> 2 < length (getBackgroundColors podiumImage)"
    by (simp_all add: podium_palette)
  have c: "colorCounts podiumImage = [((0, 0, 255), 3), ((0, 255, 0), 2), ((255, 0, 0), 3)]"
    unfolding counts by code_simp
  have s: "specPalette (sampledColors podiumImage) = [(0, 0, 255), (255, 0, 0), (0, 255, 0)]"
    using spec by (simp add: podium_palette)
  have t01: "clusterCount (sampledColors podiumImage) (getBackgroundColors podiumImage ! 1) =
      clusterCount (sampledColors podiumImage) (getBackgroundColors podiumImage ! 0) \<and>
    firstIndex (sampledColors podiumImage) (getBackgroundColors podiumImage ! 0) <
      firstIndex (sampledColors podiumImage) (getBackgroundColors podiumImage ! 1)"
    using r01 [THEN mp, OF len(1)] by (simp add: podium_palette podium_clusters)
  have t12: "clusterCount (sampledColors podiumImage) (getBackgroundColors podiumImage ! 2) <
      clusterCount (sampledColors podiumImage) (getBackgroundColors podiumImage ! 1)"
    using r12 [THEN mp, OF len(2)] by (simp add: podium_palette podium_clusters)
  have v: "data podiumVariant ! 4 = 77 \<and> data podiumImage ! 4 = 9"
    "width podiumVariant = width podiumImage \<and> height podiumVariant = height podiumImage"
    "map (pixelRGB podiumVariant) (samplePixels (width podiumImage) (height podiumImage)) =
       map (pixelRGB podiumImage) (samplePixels (width podiumImage) (height podiumImage))"
    by code_simp+
  have "\<forall>p\<in>set (samplePixels (width podiumImage) (height podiumImage)).
      pixelRGB podiumVariant p = pixelRGB podiumImage p"
    using v(3) by (simp only: map_eq_conv)
  then have p: "getBackgroundColors podiumVariant = [(0, 0, 255), (255, 0, 0), (0, 255, 0)]"
    using same v(2) by (simp add: podium_palette)
  show ?thesis using c s t01 t12 len v p by (simp add: podium_palette)
qed

section \<open>Feathering never raises a value\<close>

text \<open>
  Claim C9. For every raw alpha mask, every radius and every pixel, the feathered alpha
  is at most the raw alpha, and a pixel whose raw alpha is 0 still has alpha 0.
\<close>

theorem feather_never_raises:
  assumes "i < length raw"
  shows "feather raw w h R ! i \<le> raw ! i \<and> (raw ! i = 0 \<longrightarrow> feather raw w h R ! i = 0)"
  using assms feather_below [of raw w h R] feather_keeps_nonpositive [of i raw w h R]
  by (simp add: below_def)

theorem feather_never_raises_witness:
  "(4 :: nat) < length spotMask \<and> spotMask ! 4 = 0 \<and> feather spotMask 3 3 1 ! 4 = 0 \<and>
   (3 :: nat) < length spotMask \<and> spotMask ! 3 = 76 \<and> feather spotMask 3 3 1 ! 3 = 0"
  using feather_never_raises [of 4 spotMask 3 3 1] feather_never_raises [of 3 spotMask 3 3 1]
  by (simp add: spot_feathered) (simp add: spotMask_def)

section \<open>Range of the masks\<close>

text \<open>
  Claim C10. At every pixel the raw alpha mask of the classifier is 0, 76 or 255, and
  the feathered mask that the pipeline goes on with stays within 0..255.
\<close>

theorem raw_alpha_values:
  assumes "i < width img * height img"
  shows "rawAlpha s img ! i \<in> {0, 76, 255} \<and>
         0 \<le> finalAlpha s img ! i \<and> finalAlpha s img ! i \<le> 255"
  using rawAlpha_values [OF assms] finalAlpha_range [OF assms] by simp

theorem raw_alpha_values_witness:
  "(2 :: nat) < width stripImage * height stripImage \<and>
   rawAlpha \<lparr>colorTolerance = 30, edgeDetection = 1, feathering = 2\<rparr> stripImage ! 2 = 0 \<and>
   finalAlpha \<lparr>colorTolerance = 30, edgeDetection = 1, feathering = 2\<rparr> stripImage ! 2 = 0"
  using raw_alpha_values [of 2 stripImage "\<lparr>colorTolerance = 30, edgeDetection = 1, feathering = 2\<rparr>"]
  by (simp add: strip_masks) (simp add: stripImage_def)

end
